theory Spec2Isabelle
  imports Main
begin

section \<open>The Cardano agent's conversation loop\<close>

text \<open>
  This theory embeds \<^verbatim>\<open>workflow/agents/cardano_agent.py\<close>: the agent state, the
  two-node graph built by \<^verbatim>\<open>CardanoAgent._build_graph\<close> (node \<^verbatim>\<open>agent\<close> calling the
  model, node \<^verbatim>\<open>tools\<close> dispatching tool calls, the conditional edge
  \<^verbatim>\<open>should_continue\<close>), \<^verbatim>\<open>CardanoAgent.is_new_thread\<close> and \<^verbatim>\<open>chat\<close>.

  The language model, the tool functions and the graph engine are libraries and remote
  services. They enter the embedding as follows.
  \<^item> The model client \<^verbatim>\<open>llm_with_tools.invoke\<close> is a field of the record \<open>agent\<close>: a
    function from the transcript it is shown to either the text of the exception it
    raises or an assistant reply (text and a list of tool calls).
  \<^item> The tool functions are the field \<open>run_tool\<close>: from a tool call to the text of its
    result, or to the text of an exception that escapes the tools node.
  \<^item> The graph engine runs the node of the current state, merges the returned update
    into the state (the \<^verbatim>\<open>add_messages\<close> reducer appends), follows the edge and
    checkpoints the state. \<^verbatim>\<open>chat\<close> passes no \<^verbatim>\<open>recursion_limit\<close>, so the engine's
    default bounds every run; the limit is the field \<open>recursion_limit\<close>.
  \<^item> The checkpointer is a dictionary from thread keys to states. A Python dictionary
    distinguishes the integer \<^verbatim>\<open>1\<close> from the string \<^verbatim>\<open>'1'\<close>, so keys are tagged. The
    engine turns a thread identifier that is not a string into one before it reads or
    writes a checkpoint, except the integer \<^verbatim>\<open>0\<close>, which it leaves as it is.
\<close>

subsection \<open>Messages\<close>

datatype tool_call =
  ToolCall (call_id: string) (call_name: string) (call_args: "(string \<times> string) list")

text \<open>
  The four message classes the loop handles, and \<open>OtherObject\<close> for any object that is
  not one of them: it has neither a \<^verbatim>\<open>content\<close> nor a \<^verbatim>\<open>tool_calls\<close> attribute.
\<close>

datatype message =
    SystemMessage string
  | HumanMessage string
  | AIMessage string "tool_call list"
  | ToolMessage string string
  | OtherObject string

text \<open>\<^verbatim>\<open>hasattr(m, 'content')\<close> and \<^verbatim>\<open>m.content\<close>: \<open>None\<close> when the attribute is absent.\<close>

fun content_attr :: "message \<Rightarrow> string option" where
  "content_attr (SystemMessage c) = Some c"
| "content_attr (HumanMessage c) = Some c"
| "content_attr (AIMessage c cs) = Some c"
| "content_attr (ToolMessage c i) = Some c"
| "content_attr (OtherObject r) = None"

text \<open>\<^verbatim>\<open>hasattr(m, 'tool_calls')\<close> and \<^verbatim>\<open>m.tool_calls\<close>: only assistant messages have it.\<close>

fun tool_calls_attr :: "message \<Rightarrow> tool_call list option" where
  "tool_calls_attr (AIMessage c cs) = Some cs"
| "tool_calls_attr m = None"

subsection \<open>Errors\<close>

text \<open>
  The exceptions that can end a run: of the code itself (\<open>IndexError\<close>), of the model
  client, of a tool, of the graph library (\<open>ValueError\<close>), and the engine's
  \<^verbatim>\<open>GraphRecursionError\<close>. Each carries its message.
\<close>

datatype error =
    IndexError
  | ModelError string
  | ToolError string
  | ValueError string
  | GraphRecursionError string

text \<open>\<^verbatim>\<open>str(e)\<close> for an exception \<open>e\<close>.\<close>

fun error_text :: "error \<Rightarrow> string" where
  "error_text IndexError = ''list index out of range''"
| "error_text (ModelError d) = d"
| "error_text (ToolError d) = d"
| "error_text (ValueError d) = d"
| "error_text (GraphRecursionError d) = d"

subsection \<open>Agent state and updates\<close>

record agent_state =
  messages :: "message list"
  user_query :: string
  "context" :: string
  response :: string

text \<open>
  A node returns a dictionary with some of the state's keys; \<open>None\<close> is a key that the
  dictionary does not have.
\<close>

record update =
  upd_messages :: "message list option"
  upd_user_query :: "string option"
  upd_context :: "string option"
  upd_response :: "string option"

text \<open>
  Modelled from the spec: the reducer \<^verbatim>\<open>add_messages\<close> of the \<^verbatim>\<open>messages\<close> channel is
  library code. Turns form an append-only sequence; the messages built by this code
  carry no identifier that could match an earlier one, so the reducer appends.
\<close>

definition add_messages :: "message list \<Rightarrow> message list \<Rightarrow> message list" where
  "add_messages left right = left @ right"

text \<open>
  Merging an update into the state: \<^verbatim>\<open>messages\<close> goes through its reducer, the other
  keys are overwritten when present.
\<close>

definition apply_update :: "agent_state \<Rightarrow> update \<Rightarrow> agent_state" where
  "apply_update st u =
     \<lparr> messages = (case upd_messages u of None \<Rightarrow> messages st
                    | Some ms \<Rightarrow> add_messages (messages st) ms),
       user_query = (case upd_user_query u of None \<Rightarrow> user_query st | Some q \<Rightarrow> q),
       context = (case upd_context u of None \<Rightarrow> context st | Some c \<Rightarrow> c),
       response = (case upd_response u of None \<Rightarrow> response st | Some r \<Rightarrow> r) \<rparr>"

definition messages_only :: "message list \<Rightarrow> update" where
  "messages_only ms =
     \<lparr> upd_messages = Some ms, upd_user_query = None,
       upd_context = None, upd_response = None \<rparr>"

subsection \<open>The agent\<close>

text \<open>
  \<^verbatim>\<open>CardanoAgent\<close>: the model bound to the tools, the tools behind its \<^verbatim>\<open>ToolNode\<close>, the
  system prompt, and the compiled graph's engine settings: the recursion limit that
  applies to \<^verbatim>\<open>graph.invoke\<close> and the message of the error raised when it is reached.
  \<open>py_str\<close> is Python's \<^verbatim>\<open>str\<close> on a message object.
\<close>

record agent =
  llm_with_tools :: "message list \<Rightarrow> string + (string \<times> tool_call list)"
  run_tool :: "tool_call \<Rightarrow> string + string"
  system_prompt :: string
  py_str :: "message \<Rightarrow> string"
  recursion_limit :: nat
  recursion_message :: string

datatype node = Agent | Tools | END

text \<open>\<^verbatim>\<open>should_continue\<close>; \<^verbatim>\<open>state["messages"][-1]\<close> raises on an empty list.\<close>

definition should_continue :: "agent_state \<Rightarrow> error + string" where
  "should_continue state =
     (case messages state of
        [] \<Rightarrow> Inl IndexError
      | m # ms \<Rightarrow>
          (case tool_calls_attr (last (m # ms)) of
             Some (c # cs) \<Rightarrow> Inr ''tools''
           | _ \<Rightarrow> Inr ''end''))"

text \<open>The mapping given to \<^verbatim>\<open>add_conditional_edges\<close>.\<close>

definition edge_map :: "string \<Rightarrow> node option" where
  "edge_map r = (if r = ''tools'' then Some Tools
                 else if r = ''end'' then Some END else None)"

text \<open>\<^verbatim>\<open>call_model\<close>: the reply becomes one assistant message.\<close>

definition call_model :: "agent \<Rightarrow> agent_state \<Rightarrow> error + update" where
  "call_model ag state =
     (case llm_with_tools ag (messages state) of
        Inl d \<Rightarrow> Inl (ModelError d)
      | Inr (c, cs) \<Rightarrow> Inr (messages_only [AIMessage c cs]))"

text \<open>
  Modelled from the spec: the node \<^verbatim>\<open>ToolNode(self.tools)\<close> is library code. For each
  tool call of the last message it dispatches to the tool and captures the result as
  one tool-result message that refers to the call's identifier. A failure that the
  tool reports as text is such a result; an exception that escapes the tool ends the
  node, and no result is appended.
\<close>

fun run_tools :: "agent \<Rightarrow> tool_call list \<Rightarrow> string + message list" where
  "run_tools ag [] = Inr []"
| "run_tools ag (call # calls) =
     (case run_tool ag call of
        Inl d \<Rightarrow> Inl d
      | Inr text \<Rightarrow>
          (case run_tools ag calls of
             Inl d \<Rightarrow> Inl d
           | Inr ms \<Rightarrow> Inr (ToolMessage text (call_id call) # ms)))"

definition tool_node :: "agent \<Rightarrow> agent_state \<Rightarrow> error + update" where
  "tool_node ag state =
     (case messages state of
        [] \<Rightarrow> Inl (ValueError ''No message found in input'')
      | m # ms \<Rightarrow>
          (case last (m # ms) of
             AIMessage c cs \<Rightarrow>
               (case run_tools ag cs of
                  Inl d \<Rightarrow> Inl (ToolError d)
                | Inr results \<Rightarrow> Inr (messages_only results))
           | _ \<Rightarrow> Inl (ValueError ''Last message is not an AIMessage'')))"

text \<open>
  One step of the compiled graph: run the node, merge its update, follow the edge.
  The edges are \<^verbatim>\<open>START \<rightarrow> agent\<close>, \<^verbatim>\<open>agent \<rightarrow> should_continue\<close>, \<^verbatim>\<open>tools \<rightarrow> agent\<close>.
\<close>

fun step :: "agent \<Rightarrow> node \<Rightarrow> agent_state \<Rightarrow> error + (node \<times> agent_state)" where
  "step ag Agent state =
     (case call_model ag state of
        Inl e \<Rightarrow> Inl e
      | Inr u \<Rightarrow>
          (let state' = apply_update state u in
           case should_continue state' of
             Inl e \<Rightarrow> Inl e
           | Inr r \<Rightarrow>
               (case edge_map r of
                  None \<Rightarrow> Inl (ValueError r)
                | Some n \<Rightarrow> Inr (n, state'))))"
| "step ag Tools state =
     (case tool_node ag state of
        Inl e \<Rightarrow> Inl e
      | Inr u \<Rightarrow> Inr (Agent, apply_update state u))"
| "step ag END state = Inr (END, state)"

text \<open>
  Modelled from the spec: the engine's loop is library code. It runs the graph from a
  node with a number of steps left. Each completed step is checkpointed, so the
  result is the last checkpointed state and the exception that ended the run, if one
  did. The engine looks at its limit before it looks whether the run is over, and its
  entry step counts: with limit \<open>L\<close> a run ends normally when it reaches the end in
  fewer than \<open>L\<close> steps of the nodes; otherwise \<open>L\<close> steps are made and the engine
  raises \<^verbatim>\<open>GraphRecursionError\<close>.
\<close>

fun run_graph :: "agent \<Rightarrow> nat \<Rightarrow> node \<Rightarrow> agent_state \<Rightarrow> agent_state \<times> error option" where
  "run_graph ag 0 n state = (state, Some (GraphRecursionError (recursion_message ag)))"
| "run_graph ag (Suc k) n state =
     (if n = END then (state, None)
      else case step ag n state of
             Inl e \<Rightarrow> (state, Some e)
           | Inr (n', state') \<Rightarrow> run_graph ag k n' state')"

subsection \<open>The checkpointer and thread keys\<close>

datatype thread_key = IntKey int | StrKey string

type_synonym store = "thread_key \<Rightarrow> agent_state option"

text \<open>Python's \<^verbatim>\<open>str\<close> on an integer: decimal digits, with a sign when negative.\<close>

fun str_nat :: "nat \<Rightarrow> string" where
  "str_nat n = (if n < 10 then [char_of (48 + n)]
                else str_nat (n div 10) @ [char_of (48 + n mod 10)])"

definition str_int :: "int \<Rightarrow> string" where
  "str_int i = (if i < 0 then CHR ''-'' # str_nat (nat (- i)) else str_nat (nat i))"

text \<open>
  Modelled from the spec: the key under which the engine keeps the checkpoints of a
  thread is decided by library code. A thread identifier that is not a string is
  turned into one with \<^verbatim>\<open>str\<close>, unless it is the integer \<^verbatim>\<open>0\<close>.
\<close>

fun checkpoint_key :: "thread_key \<Rightarrow> thread_key" where
  "checkpoint_key (IntKey i) = (if i = 0 then IntKey i else StrKey (str_int i))"
| "checkpoint_key (StrKey s) = StrKey s"

text \<open>
  \<^verbatim>\<open>is_new_thread\<close>: the state stored under \<^verbatim>\<open>str(thread_id)\<close> has no values.
\<close>

definition is_new_thread :: "store \<Rightarrow> int \<Rightarrow> bool" where
  "is_new_thread st thread_id = (st (StrKey (str_int thread_id)) = None)"

definition blank_state :: agent_state where
  "blank_state = \<lparr> messages = [], user_query = [], context = [], response = [] \<rparr>"

text \<open>
  Modelled from the spec: the graph engine and its checkpointer (\<^verbatim>\<open>MemorySaver\<close>) are
  library code. \<^verbatim>\<open>graph.invoke(input, config)\<close> merges the input into the state stored
  for the configuration's thread, runs the graph from its entry node under the
  recursion limit, and leaves the state of the last completed step in the
  checkpointer.
\<close>

definition entry_state :: "store \<Rightarrow> thread_key \<Rightarrow> update \<Rightarrow> agent_state" where
  "entry_state st key input =
     apply_update (case st (checkpoint_key key) of None \<Rightarrow> blank_state | Some s \<Rightarrow> s) input"

definition graph_invoke ::
  "agent \<Rightarrow> store \<Rightarrow> thread_key \<Rightarrow> update \<Rightarrow> store \<times> (error + agent_state)" where
  "graph_invoke ag st key input =
     (case run_graph ag (recursion_limit ag) Agent (entry_state st key input) of
        (s, None) \<Rightarrow> (st(checkpoint_key key \<mapsto> s), Inr s)
      | (s, Some e) \<Rightarrow> (st(checkpoint_key key \<mapsto> s), Inl e))"

subsection \<open>chat\<close>

definition apology :: string where
  "apology = ''I encountered an error while processing your request: ''"

definition initial_messages :: "agent \<Rightarrow> bool \<Rightarrow> string \<Rightarrow> message list" where
  "initial_messages ag is_new user_input =
     (if is_new then [SystemMessage (system_prompt ag)] else []) @ [HumanMessage user_input]"

definition initial_state :: "agent \<Rightarrow> bool \<Rightarrow> string \<Rightarrow> update" where
  "initial_state ag is_new user_input =
     \<lparr> upd_messages = Some (initial_messages ag is_new user_input),
       upd_user_query = Some user_input,
       upd_context = Some [],
       upd_response = Some [] \<rparr>"

text \<open>
  The tail of \<^verbatim>\<open>chat\<close>: what is returned for each outcome of \<^verbatim>\<open>graph.invoke\<close>. Every
  exception is caught and reported in the returned text.
\<close>

definition chat_result :: "agent \<Rightarrow> error + agent_state \<Rightarrow> string" where
  "chat_result ag outcome =
     (case outcome of
        Inl e \<Rightarrow> apology @ error_text e
      | Inr result \<Rightarrow>
          (case messages result of
             [] \<Rightarrow> apology @ error_text IndexError
           | m # ms \<Rightarrow>
               (let final_message = last (m # ms) in
                case content_attr final_message of
                  Some c \<Rightarrow> c
                | None \<Rightarrow> py_str ag final_message)))"

text \<open>
  \<^verbatim>\<open>chat\<close>: new-thread detection reads under \<^verbatim>\<open>str(thread_id)\<close>, the graph is invoked
  with \<^verbatim>\<open>thread_id\<close> itself. The result is the checkpointer afterwards and the text
  returned.
\<close>

definition chat :: "agent \<Rightarrow> store \<Rightarrow> int \<Rightarrow> string \<Rightarrow> store \<times> string" where
  "chat ag st thread_id user_input =
     (let is_new = is_new_thread st thread_id in
      case graph_invoke ag st (IntKey thread_id) (initial_state ag is_new user_input) of
        (st', outcome) \<Rightarrow> (st', chat_result ag outcome))"

text \<open>
  The interactive loop at the end of the file: one thread, one \<^verbatim>\<open>chat\<close> per input,
  each on the checkpointer the previous one left.
\<close>

fun chats :: "agent \<Rightarrow> store \<Rightarrow> int \<Rightarrow> string list \<Rightarrow> store \<times> string list" where
  "chats ag st thread_id [] = (st, [])"
| "chats ag st thread_id (u # us) =
     (case chat ag st thread_id u of
        (st', r) \<Rightarrow>
          (case chats ag st' thread_id us of
             (st'', rs) \<Rightarrow> (st'', r # rs)))"

subsection \<open>Notions used to state the properties\<close>

text \<open>The transcript stored under a key; empty when the key has no checkpoint.\<close>

definition transcript :: "store \<Rightarrow> thread_key \<Rightarrow> message list" where
  "transcript st key = (case st key of None \<Rightarrow> [] | Some s \<Rightarrow> messages s)"

text \<open>The key under which the engine keeps the thread that \<^verbatim>\<open>chat\<close> is called with.\<close>

definition thread_key_of :: "int \<Rightarrow> thread_key" where
  "thread_key_of thread_id = checkpoint_key (IntKey thread_id)"

text \<open>The state the graph starts from in \<^verbatim>\<open>chat\<close>: the stored state with the input merged.\<close>

definition chat_entry :: "agent \<Rightarrow> store \<Rightarrow> int \<Rightarrow> string \<Rightarrow> agent_state" where
  "chat_entry ag st thread_id user_input =
     entry_state st (IntKey thread_id)
       (initial_state ag (is_new_thread st thread_id) user_input)"

text \<open>The state after a plain-text reply \<open>c\<close> has been appended.\<close>

definition answered :: "agent_state \<Rightarrow> string \<Rightarrow> agent_state" where
  "answered state c = state\<lparr>messages := messages state @ [AIMessage c []]\<rparr>"

fun user_texts :: "message list \<Rightarrow> string list" where
  "user_texts [] = []"
| "user_texts (HumanMessage c # ms) = c # user_texts ms"
| "user_texts (m # ms) = user_texts ms"

fun system_turns :: "message list \<Rightarrow> nat" where
  "system_turns [] = 0"
| "system_turns (SystemMessage c # ms) = Suc (system_turns ms)"
| "system_turns (m # ms) = system_turns ms"

text \<open>The messages that the loop itself produces: assistant messages and tool results.\<close>

fun from_loop :: "message \<Rightarrow> bool" where
  "from_loop (AIMessage c cs) = True"
| "from_loop (ToolMessage c i) = True"
| "from_loop m = False"

text \<open>The node and state reached after exactly \<open>k\<close> steps, if the run gets that far.\<close>

fun config_after ::
  "agent \<Rightarrow> nat \<Rightarrow> node \<Rightarrow> agent_state \<Rightarrow> (node \<times> agent_state) option" where
  "config_after ag 0 n state = Some (n, state)"
| "config_after ag (Suc k) n state =
     (if n = END then None
      else case step ag n state of
             Inl e \<Rightarrow> None
           | Inr (n', state') \<Rightarrow> config_after ag k n' state')"

text \<open>
  One round: the model is called and asks for tools, and the tools node answers. The
  state is the one the next model call sees.
\<close>

definition completes_round :: "agent \<Rightarrow> agent_state \<Rightarrow> bool" where
  "completes_round ag state =
     (case llm_with_tools ag (messages state) of
        Inl d \<Rightarrow> False
      | Inr (c, cs) \<Rightarrow>
          cs \<noteq> [] \<and> (case run_tools ag cs of Inl d \<Rightarrow> False | Inr results \<Rightarrow> True))"

definition next_round :: "agent \<Rightarrow> agent_state \<Rightarrow> agent_state" where
  "next_round ag state =
     (case step ag Agent state of
        Inl e \<Rightarrow> state
      | Inr (n, state') \<Rightarrow>
          (case step ag Tools state' of
             Inl e \<Rightarrow> state
           | Inr (n', state'') \<Rightarrow> state''))"

fun round_state :: "agent \<Rightarrow> nat \<Rightarrow> agent_state \<Rightarrow> agent_state" where
  "round_state ag 0 state = state"
| "round_state ag (Suc k) state = round_state ag k (next_round ag state)"

text \<open>
  A transcript in which no tool call is pending: every assistant message is directly
  followed by a block of tool results holding one result per tool call of the
  message, in order and with the call's identifier, and nothing else.
\<close>

fun is_tool_result :: "message \<Rightarrow> bool" where
  "is_tool_result (ToolMessage c i) = True"
| "is_tool_result m = False"

fun result_ids :: "message list \<Rightarrow> string list" where
  "result_ids [] = []"
| "result_ids (ToolMessage c i # ms) = i # result_ids ms"
| "result_ids (m # ms) = result_ids ms"

fun resolved :: "message list \<Rightarrow> bool" where
  "resolved [] = True"
| "resolved (AIMessage c cs # rest) =
     (result_ids (takeWhile is_tool_result rest) = map call_id cs \<and> resolved rest)"
| "resolved (m # rest) = resolved rest"

text \<open>
  The invariant of the loop. Where the model is about to be called, or the run has
  ended, no tool call is pending. Where the tools are about to run, the pending calls
  are those of the last message, which is an assistant message with at least one call,
  and nothing before it is pending.
\<close>

definition no_pending :: "node \<Rightarrow> agent_state \<Rightarrow> bool" where
  "no_pending n state =
     (case n of
        Tools \<Rightarrow>
          (case rev (messages state) of
             AIMessage c cs # before \<Rightarrow> cs \<noteq> [] \<and> resolved (rev before)
           | _ \<Rightarrow> False)
      | _ \<Rightarrow> resolved (messages state))"

text \<open>The value of a string of decimal digits, to read back what \<open>str_nat\<close> writes.\<close>

fun digits_value :: "string \<Rightarrow> nat" where
  "digits_value [] = 0"
| "digits_value (c # cs) = (of_char c - 48) * 10 ^ length cs + digits_value cs"

subsection \<open>Agents used as concrete inputs\<close>

definition prompt :: string where
  "prompt = ''You are a helpful Cardano blockchain assistant.''"

definition balance_call :: tool_call where
  "balance_call = ToolCall ''call_1'' ''get_address_details'' [(''address'', ''addr_test1'')]"

definition limit_text :: string where
  "limit_text = ''Recursion limit of 25 reached without hitting a stop condition.''"

text \<open>A model that answers every transcript in plain text.\<close>

definition plain_agent :: agent where
  "plain_agent =
     \<lparr> llm_with_tools = (\<lambda>ms. Inr (''ok'', [])),
       run_tool = (\<lambda>call. Inr ''5 ADA''),
       system_prompt = prompt,
       py_str = (\<lambda>m. ''object''),
       recursion_limit = 25,
       recursion_message = limit_text \<rparr>"

text \<open>A model that asks for one tool and answers once it sees a tool result.\<close>

definition tool_agent :: agent where
  "tool_agent =
     \<lparr> llm_with_tools =
         (\<lambda>ms. case rev ms of
                 ToolMessage c i # _ \<Rightarrow> Inr (''The balance is 5 ADA'', [])
               | _ \<Rightarrow> Inr ([], [balance_call])),
       run_tool = (\<lambda>call. Inr ''5 ADA''),
       system_prompt = prompt,
       py_str = (\<lambda>m. ''object''),
       recursion_limit = 25,
       recursion_message = limit_text \<rparr>"

text \<open>A model that asks for a tool on every call.\<close>

definition loop_agent :: agent where
  "loop_agent =
     \<lparr> llm_with_tools = (\<lambda>ms. Inr ([], [balance_call])),
       run_tool = (\<lambda>call. Inr ''5 ADA''),
       system_prompt = prompt,
       py_str = (\<lambda>m. ''object''),
       recursion_limit = 25,
       recursion_message = limit_text \<rparr>"

text \<open>
  A model that asks for a tool until the transcript holds thirteen tool results and
  then answers.
\<close>

definition patient_agent :: agent where
  "patient_agent =
     \<lparr> llm_with_tools =
         (\<lambda>ms. if length (filter is_tool_result ms) < 13
               then Inr ([], [balance_call]) else Inr (''done'', [])),
       run_tool = (\<lambda>call. Inr ''5 ADA''),
       system_prompt = prompt,
       py_str = (\<lambda>m. ''object''),
       recursion_limit = 25,
       recursion_message = limit_text \<rparr>"

text \<open>A model client that fails on every call.\<close>

definition failing_agent :: agent where
  "failing_agent =
     \<lparr> llm_with_tools = (\<lambda>ms. Inl ''Connection error.''),
       run_tool = (\<lambda>call. Inr ''5 ADA''),
       system_prompt = prompt,
       py_str = (\<lambda>m. ''object''),
       recursion_limit = 25,
       recursion_message = limit_text \<rparr>"

text \<open>A model that asks for a tool, with a tool that raises.\<close>

definition broken_tool_agent :: agent where
  "broken_tool_agent =
     \<lparr> llm_with_tools = (\<lambda>ms. Inr ([], [balance_call])),
       run_tool = (\<lambda>call. Inl ''Blockfrost is not reachable''),
       system_prompt = prompt,
       py_str = (\<lambda>m. ''object''),
       recursion_limit = 25,
       recursion_message = limit_text \<rparr>"

text \<open>A state at the point where the model is called for the first time.\<close>

definition asked :: agent_state where
  "asked = \<lparr> messages = [SystemMessage prompt, HumanMessage ''hi''],
             user_query = ''hi'', context = [], response = [] \<rparr>"

text \<open>Two results of a run: one ends in an assistant message with empty text, the
  other in an object that has no \<^verbatim>\<open>content\<close>.\<close>

definition silent_result :: agent_state where
  "silent_result = \<lparr> messages = [HumanMessage ''hi'', AIMessage [] []],
                     user_query = ''hi'', context = [], response = [] \<rparr>"

definition odd_result :: agent_state where
  "odd_result = \<lparr> messages = [HumanMessage ''hi'', OtherObject ''<object>''],
                  user_query = ''hi'', context = [], response = [] \<rparr>"

text \<open>
  The checkpointer after \<^verbatim>\<open>chat\<close> has answered \<^verbatim>\<open>'hi'\<close> and then \<^verbatim>\<open>'again'\<close> on thread
  \<^verbatim>\<open>0\<close>, the default thread of \<^verbatim>\<open>CardanoChatbot\<close>, starting from an empty one.
\<close>

definition after_hi :: store where
  "after_hi = Map.empty(IntKey 0 \<mapsto> answered (chat_entry plain_agent Map.empty 0 ''hi'') ''ok'')"

definition after_again :: store where
  "after_again = after_hi(IntKey 0 \<mapsto> answered (chat_entry plain_agent after_hi 0 ''again'') ''ok'')"

text \<open>
  The states of the run in which the model asks for the balance of an address: at the
  first model call, with the tool call pending, and with its result appended.
\<close>

definition balance_entry :: agent_state where
  "balance_entry = chat_entry tool_agent Map.empty 7 ''What is the balance of addr_test1?''"

definition balance_pending :: agent_state where
  "balance_pending =
     balance_entry\<lparr>messages := messages balance_entry @ [AIMessage [] [balance_call]]\<rparr>"

definition balance_done :: agent_state where
  "balance_done =
     balance_pending\<lparr>messages := messages balance_pending @ [ToolMessage ''5 ADA'' ''call_1'']\<rparr>"

text \<open>
  The checkpointer after \<^verbatim>\<open>chat\<close> on thread \<^verbatim>\<open>1\<close> with the tool that raises, and the state
  from which the next \<^verbatim>\<open>chat\<close> on that thread starts.
\<close>

definition after_break :: store where
  "after_break = fst (chat broken_tool_agent Map.empty 1 ''hi'')"

definition retry_entry :: agent_state where
  "retry_entry = chat_entry broken_tool_agent after_break 1 ''again''"

section \<open>Properties\<close>

subsection \<open>Steps and runs of the graph\<close>

declare step.simps [simp del]

subsection \<open>The system prompt on later calls\<close>

lemma apply_messages_only:
  "apply_update st (messages_only ms) = st\<lparr>messages := messages st @ ms\<rparr>"
  by (simp add: apply_update_def messages_only_def add_messages_def)

lemma case_last:
  "xs \<noteq> [] \<Longrightarrow> (case xs of [] \<Rightarrow> a | y # ys \<Rightarrow> f (last (y # ys))) = f (last xs)"
  by (cases xs) simp_all

lemma should_continue_last:
  "messages st \<noteq> [] \<Longrightarrow>
   should_continue st =
     (case tool_calls_attr (last (messages st)) of
        Some (c # cs) \<Rightarrow> Inr ''tools''
      | _ \<Rightarrow> Inr ''end'')"
  unfolding should_continue_def by (rule case_last)

lemma step_Agent_error:
  "llm_with_tools ag (messages st) = Inl d \<Longrightarrow> step ag Agent st = Inl (ModelError d)"
  by (simp add: step.simps call_model_def)

lemma step_Agent_plain:
  "llm_with_tools ag (messages st) = Inr (c, []) \<Longrightarrow>
   step ag Agent st = Inr (END, st\<lparr>messages := messages st @ [AIMessage c []]\<rparr>)"
  by (simp add: step.simps call_model_def apply_messages_only should_continue_last edge_map_def)

lemma step_Agent_tools:
  "llm_with_tools ag (messages st) = Inr (c, cs) \<Longrightarrow> cs \<noteq> [] \<Longrightarrow>
   step ag Agent st = Inr (Tools, st\<lparr>messages := messages st @ [AIMessage c cs]\<rparr>)"
  by (cases cs)
    (simp_all add: step.simps call_model_def apply_messages_only should_continue_last
      edge_map_def)

lemma tool_node_last:
  "messages st \<noteq> [] \<Longrightarrow>
   tool_node ag st =
     (case last (messages st) of
        AIMessage c cs \<Rightarrow>
          (case run_tools ag cs of
             Inl d \<Rightarrow> Inl (ToolError d)
           | Inr results \<Rightarrow> Inr (messages_only results))
      | _ \<Rightarrow> Inl (ValueError ''Last message is not an AIMessage''))"
  unfolding tool_node_def by (rule case_last)

lemma step_Tools:
  "messages st = pre @ [AIMessage c cs] \<Longrightarrow> run_tools ag cs = Inr results \<Longrightarrow>
   step ag Tools st = Inr (Agent, st\<lparr>messages := messages st @ results\<rparr>)"
  by (simp add: step.simps tool_node_last apply_messages_only)

lemma step_Tools_error:
  "messages st = pre @ [AIMessage c cs] \<Longrightarrow> run_tools ag cs = Inl d \<Longrightarrow>
   step ag Tools st = Inl (ToolError d)"
  by (simp add: step.simps tool_node_last)

lemma run_tools_results:
  "run_tools ag cs = Inr results \<Longrightarrow>
   list_all is_tool_result results \<and> length results = length cs \<and>
   result_ids results = map call_id cs \<and> takeWhile is_tool_result results = results \<and>
   list_all from_loop results"
proof (induction cs arbitrary: results)
  case Nil
  then show ?case by simp
next
  case (Cons call cs)
  from Cons.prems obtain res ms where "run_tool ag call = Inr res"
    and ms: "run_tools ag cs = Inr ms" and r: "results = ToolMessage res (call_id call) # ms"
    by (auto split: sum.splits)
  from Cons.IH [OF ms] r show ?case by simp
qed

lemma completes_roundE:
  assumes "completes_round ag st"
  obtains c cs results where "llm_with_tools ag (messages st) = Inr (c, cs)" and "cs \<noteq> []"
    and "run_tools ag cs = Inr results"
proof (cases "llm_with_tools ag (messages st)")
  case (Inl d)
  with assms show ?thesis by (simp add: completes_round_def)
next
  case (Inr p)
  obtain c cs where p: "p = (c, cs)" by (cases p)
  with Inr assms have ne: "cs \<noteq> []" by (simp add: completes_round_def)
  show ?thesis
  proof (cases "run_tools ag cs")
    case (Inl d)
    with Inr p assms show ?thesis by (simp add: completes_round_def)
  next
    case r: (Inr results)
    from Inr p ne r that show ?thesis by simp
  qed
qed

lemma next_round_eq:
  assumes "llm_with_tools ag (messages st) = Inr (c, cs)" and "cs \<noteq> []"
    and "run_tools ag cs = Inr results"
  shows "next_round ag st = st\<lparr>messages := messages st @ AIMessage c cs # results\<rparr>"
proof -
  let ?st1 = "st\<lparr>messages := messages st @ [AIMessage c cs]\<rparr>"
  have 1: "step ag Agent st = Inr (Tools, ?st1)"
    using assms(1,2) by (rule step_Agent_tools)
  have 2: "step ag Tools ?st1 = Inr (Agent, ?st1\<lparr>messages := messages ?st1 @ results\<rparr>)"
    by (rule step_Tools [where pre = "messages st", OF _ assms(3)]) simp
  show ?thesis
    unfolding next_round_def by (simp add: 1 2)
qed

lemma run_graph_END: "0 < k \<Longrightarrow> run_graph ag k END st = (st, None)"
  by (cases k) simp_all

lemma run_graph_step:
  "0 < k \<Longrightarrow> n \<noteq> END \<Longrightarrow> step ag n st = Inr (n', st') \<Longrightarrow>
   run_graph ag k n st = run_graph ag (k - 1) n' st'"
  by (cases k) simp_all

lemma run_graph_fail:
  "0 < k \<Longrightarrow> n \<noteq> END \<Longrightarrow> step ag n st = Inl e \<Longrightarrow> run_graph ag k n st = (st, Some e)"
  by (cases k) simp_all

lemma run_graph_limit:
  "run_graph ag 0 n st = (st, Some (GraphRecursionError (recursion_message ag)))"
  by simp

lemma run_graph_round:
  assumes "completes_round ag st" and "2 \<le> k"
  shows "run_graph ag k Agent st = run_graph ag (k - 2) Agent (next_round ag st)"
proof -
  from assms(1) obtain c cs results where llm: "llm_with_tools ag (messages st) = Inr (c, cs)"
    and ne: "cs \<noteq> []" and rt: "run_tools ag cs = Inr results" by (rule completes_roundE)
  let ?st1 = "st\<lparr>messages := messages st @ [AIMessage c cs]\<rparr>"
  have 1: "step ag Agent st = Inr (Tools, ?st1)"
    using llm ne by (rule step_Agent_tools)
  have 2: "step ag Tools ?st1 = Inr (Agent, ?st1\<lparr>messages := messages ?st1 @ results\<rparr>)"
    by (rule step_Tools [where pre = "messages st", OF _ rt]) simp
  have "run_graph ag k Agent st = run_graph ag (k - 1) Tools ?st1"
    using assms(2) 1 by (intro run_graph_step) simp_all
  also have "\<dots> = run_graph ag (k - 1 - 1) Agent
                      (?st1\<lparr>messages := messages ?st1 @ results\<rparr>)"
    using assms(2) 2 by (intro run_graph_step) simp_all
  also have "\<dots> = run_graph ag (k - 2) Agent (next_round ag st)"
    by (simp add: next_round_eq [OF llm ne rt] numeral_2_eq_2)
  finally show ?thesis .
qed

lemma run_graph_rounds:
  "(\<forall>j<k. completes_round ag (round_state ag j st)) \<Longrightarrow> 2 * k \<le> fuel \<Longrightarrow>
   run_graph ag fuel Agent st = run_graph ag (fuel - 2 * k) Agent (round_state ag k st)"
proof (induction k arbitrary: st fuel)
  case 0
  then show ?case by simp
next
  case (Suc k)
  have first: "completes_round ag st"
    using Suc.prems(1) by (metis round_state.simps(1) zero_less_Suc)
  have rest: "\<forall>j<k. completes_round ag (round_state ag j (next_round ag st))"
    using Suc.prems(1) by (metis Suc_less_eq round_state.simps(2))
  from Suc.prems(2) have f: "2 \<le> fuel" "2 * k \<le> fuel - 2" by simp_all
  have "run_graph ag fuel Agent st = run_graph ag (fuel - 2) Agent (next_round ag st)"
    using first f(1) by (rule run_graph_round)
  also have "\<dots> = run_graph ag (fuel - 2 - 2 * k) Agent (round_state ag k (next_round ag st))"
    using rest f(2) by (rule Suc.IH)
  finally show ?case by simp
qed

lemma run_graph_plain:
  assumes "llm_with_tools ag (messages st) = Inr (c, [])" and "2 \<le> k"
  shows "run_graph ag k Agent st = (answered st c, None)"
proof -
  have "run_graph ag k Agent st = run_graph ag (k - 1) END (answered st c)"
    using assms(2) step_Agent_plain [OF assms(1)]
    by (intro run_graph_step) (simp_all add: answered_def)
  also have "\<dots> = (answered st c, None)"
    using assms(2) by (intro run_graph_END) simp
  finally show ?thesis .
qed

lemma run_graph_plain_late:
  assumes "llm_with_tools ag (messages st) = Inr (c, [])"
  shows "run_graph ag (Suc 0) Agent st =
           (answered st c, Some (GraphRecursionError (recursion_message ag)))"
  using step_Agent_plain [OF assms] by (simp add: answered_def)

lemma run_graph_error:
  assumes "llm_with_tools ag (messages st) = Inl d" and "0 < k"
  shows "run_graph ag k Agent st = (st, Some (ModelError d))"
  using assms(2) step_Agent_error [OF assms(1)] by (intro run_graph_fail) simp_all

lemma run_graph_answer:
  assumes "\<forall>j<k. completes_round ag (round_state ag j st)"
    and "llm_with_tools ag (messages (round_state ag k st)) = Inr (c, [])"
    and "2 * k + 1 < fuel"
  shows "run_graph ag fuel Agent st = (answered (round_state ag k st) c, None)"
proof -
  from assms(3) have "2 * k \<le> fuel" "2 \<le> fuel - 2 * k" by simp_all
  with run_graph_rounds [OF assms(1)] run_graph_plain [OF assms(2)]
  show ?thesis by simp
qed

lemma run_graph_model_error:
  assumes "\<forall>j<k. completes_round ag (round_state ag j st)"
    and "llm_with_tools ag (messages (round_state ag k st)) = Inl d"
    and "2 * k < fuel"
  shows "run_graph ag fuel Agent st = (round_state ag k st, Some (ModelError d))"
proof -
  from assms(3) have "2 * k \<le> fuel" "0 < fuel - 2 * k" by simp_all
  with run_graph_rounds [OF assms(1)] run_graph_error [OF assms(2)]
  show ?thesis by simp
qed

lemma run_graph_out_of_steps:
  "(\<forall>j<k. completes_round ag (round_state ag j st)) \<Longrightarrow> fuel \<le> 2 * k \<Longrightarrow>
   snd (run_graph ag fuel Agent st) = Some (GraphRecursionError (recursion_message ag))"
proof (induction k arbitrary: st fuel)
  case 0
  then show ?case by simp
next
  case (Suc k)
  have first: "completes_round ag st"
    using Suc.prems(1) by (metis round_state.simps(1) zero_less_Suc)
  have rest: "\<forall>j<k. completes_round ag (round_state ag j (next_round ag st))"
    using Suc.prems(1) by (metis Suc_less_eq round_state.simps(2))
  from first obtain c cs results where llm: "llm_with_tools ag (messages st) = Inr (c, cs)"
    and ne: "cs \<noteq> []" and rt: "run_tools ag cs = Inr results" by (rule completes_roundE)
  consider "fuel = 0" | "fuel = 1" | "2 \<le> fuel" by linarith
  then show ?case
  proof cases
    case 1
    then show ?thesis by simp
  next
    case 2
    with step_Agent_tools [OF llm ne] show ?thesis by simp
  next
    case 3
    with Suc.prems(2) have "fuel - 2 \<le> 2 * k" by simp
    from Suc.IH [OF rest this] run_graph_round [OF first 3] show ?thesis by simp
  qed
qed

lemma run_graph_late_answer:
  assumes "\<forall>j<k. completes_round ag (round_state ag j st)"
    and "llm_with_tools ag (messages (round_state ag k st)) = Inr (c, [])"
    and "fuel \<le> 2 * k + 1"
  shows "snd (run_graph ag fuel Agent st) = Some (GraphRecursionError (recursion_message ag))"
proof (cases "fuel \<le> 2 * k")
  case True
  with assms(1) show ?thesis by (rule run_graph_out_of_steps)
next
  case False
  with assms(3) have f: "fuel = 2 * k + 1" by simp
  then have "run_graph ag fuel Agent st = run_graph ag (Suc 0) Agent (round_state ag k st)"
    using run_graph_rounds [OF assms(1), of fuel] by simp
  with run_graph_plain_late [OF assms(2)] show ?thesis by simp
qed

lemma chat_entry_eq:
  "chat_entry ag st tid u =
     entry_state st (IntKey tid) (initial_state ag (is_new_thread st tid) u)"
  by (simp add: chat_entry_def)

lemma chat_unfold:
  "chat ag st tid u =
     (case run_graph ag (recursion_limit ag) Agent (chat_entry ag st tid u) of
        (s, r) \<Rightarrow>
          (st(thread_key_of tid \<mapsto> s),
           chat_result ag (case r of None \<Rightarrow> Inr s | Some e \<Rightarrow> Inl e)))"
  by (simp add: chat_def graph_invoke_def chat_entry_def thread_key_of_def
      split: prod.splits option.splits)

lemma chat_run:
  obtains s r where "run_graph ag (recursion_limit ag) Agent (chat_entry ag st tid u) = (s, r)"
    and "chat ag st tid u =
           (st(thread_key_of tid \<mapsto> s),
            chat_result ag (case r of None \<Rightarrow> Inr s | Some e \<Rightarrow> Inl e))"
proof -
  obtain s r where run: "run_graph ag (recursion_limit ag) Agent (chat_entry ag st tid u) = (s, r)"
    by (cases "run_graph ag (recursion_limit ag) Agent (chat_entry ag st tid u)")
  then have "chat ag st tid u =
           (st(thread_key_of tid \<mapsto> s),
            chat_result ag (case r of None \<Rightarrow> Inr s | Some e \<Rightarrow> Inl e))"
    by (simp add: chat_unfold)
  with run that show ?thesis by blast
qed

lemma chat_result_last:
  "messages s \<noteq> [] \<Longrightarrow>
   chat_result ag (Inr s) =
     (case content_attr (last (messages s)) of
        Some c \<Rightarrow> c
      | None \<Rightarrow> py_str ag (last (messages s)))"
  unfolding chat_result_def Let_def sum.case by (rule case_last)

lemma chat_result_answered: "chat_result ag (Inr (answered s c)) = c"
  by (simp add: chat_result_last answered_def)

lemma chat_result_error: "chat_result ag (Inl e) = apology @ error_text e"
  by (simp add: chat_result_def)

lemma chat_entry_messages:
  "messages (chat_entry ag st tid u) =
     transcript st (thread_key_of tid) @ initial_messages ag (is_new_thread st tid) u"
  by (simp add: chat_entry_def entry_state_def initial_state_def apply_update_def
      add_messages_def transcript_def blank_state_def thread_key_of_def split: option.splits)

lemma chat_entry_fields:
  "user_query (chat_entry ag store tid u) = u \<and>
   context (chat_entry ag store tid u) = [] \<and>
   response (chat_entry ag store tid u) = []"
  by (simp add: chat_entry_def entry_state_def initial_state_def apply_update_def)

lemma user_texts_append: "user_texts (xs @ ys) = user_texts xs @ user_texts ys"
  by (induction xs rule: user_texts.induct) simp_all

lemma user_texts_from_loop: "list_all from_loop ms \<Longrightarrow> user_texts ms = []"
  by (induction ms rule: user_texts.induct) simp_all

lemma step_appends:
  "step ag n st = Inr (n', st') \<Longrightarrow>
   \<exists>ms. st' = st\<lparr>messages := messages st @ ms\<rparr> \<and> list_all from_loop ms"
proof (cases n)
  case Agent
  assume s: "step ag n st = Inr (n', st')"
  show ?thesis
  proof (cases "llm_with_tools ag (messages st)")
    case (Inl e)
    with s Agent show ?thesis by (simp add: step_Agent_error)
  next
    case (Inr p)
    obtain c cs where p: "p = (c, cs)" by (cases p)
    show ?thesis
    proof (cases "cs = []")
      case True
      with Inr p have "llm_with_tools ag (messages st) = Inr (c, [])" by simp
      from step_Agent_plain [OF this] s Agent
      have "st' = st\<lparr>messages := messages st @ [AIMessage c []]\<rparr> \<and>
            list_all from_loop [AIMessage c []]" by simp
      then show ?thesis by blast
    next
      case False
      from Inr p have "llm_with_tools ag (messages st) = Inr (c, cs)" by simp
      from step_Agent_tools [OF this False] s Agent
      have "st' = st\<lparr>messages := messages st @ [AIMessage c cs]\<rparr> \<and>
            list_all from_loop [AIMessage c cs]" by simp
      then show ?thesis by blast
    qed
  qed
next
  case Tools
  assume s: "step ag n st = Inr (n', st')"
  show ?thesis
  proof (cases "messages st = []")
    case True
    with s Tools show ?thesis by (simp add: step.simps tool_node_def)
  next
    case False
    show ?thesis
    proof (cases "last (messages st)")
      case (AIMessage c cs)
      show ?thesis
      proof (cases "run_tools ag cs")
        case (Inl d)
        with s Tools False AIMessage show ?thesis
          by (simp add: step.simps tool_node_last)
      next
        case (Inr results)
        with s Tools False AIMessage
        have "st' = st\<lparr>messages := messages st @ results\<rparr>"
          by (simp add: step.simps tool_node_last apply_messages_only)
        with run_tools_results [OF Inr] show ?thesis by blast
      qed
    qed (use s Tools False in \<open>simp_all add: step.simps tool_node_last\<close>)
  qed
next
  case END
  assume "step ag n st = Inr (n', st')"
  with END have "st' = st\<lparr>messages := messages st @ []\<rparr> \<and> list_all from_loop []"
    by (simp add: step.simps)
  then show ?thesis by blast
qed

lemma run_graph_appends:
  "run_graph ag k n st = (st', r) \<Longrightarrow>
   \<exists>ms. st' = st\<lparr>messages := messages st @ ms\<rparr> \<and> list_all from_loop ms"
proof (induction k arbitrary: n st)
  case 0
  then have "st' = st\<lparr>messages := messages st @ []\<rparr> \<and> list_all from_loop []" by simp
  then show ?case by blast
next
  case (Suc k)
  have stay: "st' = st \<Longrightarrow> ?case"
  proof -
    assume "st' = st"
    then have "st' = st\<lparr>messages := messages st @ []\<rparr> \<and> list_all from_loop []" by simp
    then show ?thesis by blast
  qed
  show ?case
  proof (cases "n = END")
    case True
    with Suc.prems stay show ?thesis by simp
  next
    case notEnd: False
    show ?thesis
    proof (cases "step ag n st")
      case (Inl e)
      with notEnd Suc.prems stay show ?thesis by simp
    next
      case (Inr p)
      obtain n1 st1 where p: "p = (n1, st1)" by (cases p)
      from Inr p obtain ms1 where 1: "st1 = st\<lparr>messages := messages st @ ms1\<rparr>"
        and l1: "list_all from_loop ms1"
        using step_appends by blast
      from Inr p notEnd Suc.prems have "run_graph ag k n1 st1 = (st', r)" by simp
      from Suc.IH [OF this] obtain ms2 where 2: "st' = st1\<lparr>messages := messages st1 @ ms2\<rparr>"
        and l2: "list_all from_loop ms2"
        by blast
      from 1 2 l1 l2 have "st' = st\<lparr>messages := messages st @ (ms1 @ ms2)\<rparr> \<and>
        list_all from_loop (ms1 @ ms2)" by simp
      then show ?thesis by blast
    qed
  qed
qed

lemma chat_store:
  obtains s ms where "fst (chat ag st tid u) = st(thread_key_of tid \<mapsto> s)"
    and "s = (chat_entry ag st tid u)\<lparr>messages := messages (chat_entry ag st tid u) @ ms\<rparr>"
    and "list_all from_loop ms"
proof -
  obtain s r where run: "run_graph ag (recursion_limit ag) Agent (chat_entry ag st tid u) = (s, r)"
    and c: "chat ag st tid u =
           (st(thread_key_of tid \<mapsto> s),
            chat_result ag (case r of None \<Rightarrow> Inr s | Some e \<Rightarrow> Inl e))"
    by (rule chat_run)
  from run_graph_appends [OF run] obtain ms where
    "s = (chat_entry ag st tid u)\<lparr>messages := messages (chat_entry ag st tid u) @ ms\<rparr>"
    "list_all from_loop ms" by blast
  with c that show ?thesis by simp
qed

lemma chat_writes_only_its_key:
  "fst (chat ag st tid u) (thread_key_of tid) \<noteq> None \<and>
   (\<forall>k. k \<noteq> thread_key_of tid \<longrightarrow> fst (chat ag st tid u) k = st k)"
proof -
  obtain s ms where "fst (chat ag st tid u) = st(thread_key_of tid \<mapsto> s)"
    by (rule chat_store)
  then show ?thesis by simp
qed

lemma chat_appends:
  "\<exists>ms. transcript (fst (chat ag st tid u)) (thread_key_of tid) =
            transcript st (thread_key_of tid) @ initial_messages ag (is_new_thread st tid) u @ ms
          \<and> list_all from_loop ms"
proof -
  obtain s ms where st': "fst (chat ag st tid u) = st(thread_key_of tid \<mapsto> s)"
    and s: "s = (chat_entry ag st tid u)\<lparr>messages := messages (chat_entry ag st tid u) @ ms\<rparr>"
    and l: "list_all from_loop ms"
    by (rule chat_store)
  from st' s have "transcript (fst (chat ag st tid u)) (thread_key_of tid) =
            transcript st (thread_key_of tid) @ initial_messages ag (is_new_thread st tid) u @ ms"
    by (simp add: transcript_def chat_entry_messages)
  with l show ?thesis by blast
qed

lemma chat_appends_user:
  "\<exists>new. transcript (fst (chat ag st tid u)) (thread_key_of tid) =
            transcript st (thread_key_of tid) @ new \<and> user_texts new = [u]"
proof -
  from chat_appends [of ag st tid u] obtain ms where
    t: "transcript (fst (chat ag st tid u)) (thread_key_of tid) =
            transcript st (thread_key_of tid) @ initial_messages ag (is_new_thread st tid) u @ ms"
    and l: "list_all from_loop ms" by blast
  have "user_texts (initial_messages ag (is_new_thread st tid) u @ ms) = [u]"
    by (simp add: user_texts_append user_texts_from_loop [OF l] initial_messages_def)
  with t show ?thesis by blast
qed

lemma chats_append:
  "\<exists>new. transcript (fst (chats ag st tid us)) (thread_key_of tid) =
           transcript st (thread_key_of tid) @ new \<and> user_texts new = us"
proof (induction us arbitrary: st)
  case Nil
  have "transcript (fst (chats ag st tid [])) (thread_key_of tid) =
          transcript st (thread_key_of tid) @ [] \<and> user_texts [] = []" by simp
  then show ?case by blast
next
  case (Cons u us)
  obtain st1 r1 where c: "chat ag st tid u = (st1, r1)" by (cases "chat ag st tid u")
  then have f: "fst (chats ag st tid (u # us)) = fst (chats ag st1 tid us)"
    by (simp split: prod.splits)
  from chat_appends_user [of ag st tid u] c obtain n1 where
    1: "transcript st1 (thread_key_of tid) = transcript st (thread_key_of tid) @ n1"
    and u1: "user_texts n1 = [u]"
    by auto
  from Cons.IH [of st1] obtain n2 where
    2: "transcript (fst (chats ag st1 tid us)) (thread_key_of tid) =
          transcript st1 (thread_key_of tid) @ n2" and u2: "user_texts n2 = us"
    by blast
  from 1 2 u1 u2 f have "transcript (fst (chats ag st tid (u # us))) (thread_key_of tid) =
      transcript st (thread_key_of tid) @ (n1 @ n2) \<and> user_texts (n1 @ n2) = u # us"
    by (simp add: user_texts_append)
  then show ?case by blast
qed

lemma digits_value_snoc:
  "digits_value (cs @ [c]) = digits_value cs * 10 + (of_char c - 48)"
  by (induction cs) (simp_all add: algebra_simps)

lemma digit_char: "d < 10 \<Longrightarrow> of_char (char_of (48 + d :: nat)) = (48 + d :: nat)"
  by simp

lemma digits_value_str_nat: "digits_value (str_nat n) = n"
proof (induction n rule: str_nat.induct)
  case (1 n)
  show ?case
  proof (cases "n < 10")
    case True
    then have "str_nat n = [char_of (48 + n)]" by simp
    with True show ?thesis by (simp add: digit_char)
  next
    case False
    then have s: "str_nat n = str_nat (n div 10) @ [char_of (48 + n mod 10)]"
      by (subst str_nat.simps) simp
    have "n mod 10 < 10" by simp
    then have d: "of_char (char_of (48 + n mod 10)) = (48 + n mod 10 :: nat)"
      by (rule digit_char)
    from 1 [OF False] have "digits_value (str_nat (n div 10)) = n div 10" .
    with s d show ?thesis
      by (simp only: digits_value_snoc) simp
  qed
qed

lemma str_nat_inj: "str_nat m = str_nat n \<Longrightarrow> m = n"
  by (metis digits_value_str_nat)

lemma str_nat_no_sign: "CHR ''-'' \<notin> set (str_nat n)"
proof (induction n rule: str_nat.induct)
  case (1 n)
  have digit: "char_of (48 + d :: nat) \<noteq> CHR ''-''" if "d < 10" for d
  proof
    assume "char_of (48 + d) = CHR ''-''"
    then have "(of_char (char_of (48 + d)) :: nat) = of_char CHR ''-''" by simp
    with that show False by (simp add: digit_char)
  qed
  show ?case
  proof (cases "n < 10")
    case True
    then have "str_nat n = [char_of (48 + n)]" by simp
    with digit [OF True] show ?thesis by simp
  next
    case False
    then have s: "str_nat n = str_nat (n div 10) @ [char_of (48 + n mod 10)]"
      by (subst str_nat.simps) simp
    have "n mod 10 < 10" by simp
    from digit [OF this] 1 [OF False] s show ?thesis by simp
  qed
qed

lemma str_int_inj: "str_int i = str_int j \<Longrightarrow> i = j"
proof -
  assume eq: "str_int i = str_int j"
  consider "i < 0" "j < 0" | "0 \<le> i" "0 \<le> j" | "i < 0" "0 \<le> j" | "0 \<le> i" "j < 0"
    by linarith
  then show "i = j"
  proof cases
    case 1
    with eq have "str_nat (nat (- i)) = str_nat (nat (- j))" by (simp add: str_int_def)
    then have "nat (- i) = nat (- j)" by (rule str_nat_inj)
    with 1 show ?thesis by simp
  next
    case 2
    with eq have "str_nat (nat i) = str_nat (nat j)" by (simp add: str_int_def)
    then have "nat i = nat j" by (rule str_nat_inj)
    with 2 show ?thesis by simp
  next
    case 3
    with eq have "CHR ''-'' # str_nat (nat (- i)) = str_nat (nat j)" by (simp add: str_int_def)
    then have "CHR ''-'' \<in> set (str_nat (nat j))" by (metis list.set_intros(1))
    with str_nat_no_sign show ?thesis by blast
  next
    case 4
    with eq have "str_nat (nat i) = CHR ''-'' # str_nat (nat (- j))" by (simp add: str_int_def)
    then have "CHR ''-'' \<in> set (str_nat (nat i))" by (metis list.set_intros(1))
    with str_nat_no_sign show ?thesis by blast
  qed
qed

lemma thread_key_of_inj: "thread_key_of a = thread_key_of b \<Longrightarrow> a = b"
  by (auto simp: thread_key_of_def split: if_splits dest: str_int_inj)

lemma thread_key_nonzero: "tid \<noteq> 0 \<Longrightarrow> thread_key_of tid = StrKey (str_int tid)"
  by (simp add: thread_key_of_def)

lemma thread_key_zero: "thread_key_of 0 = IntKey 0"
  by (simp add: thread_key_of_def)

lemma detection_key_other:
  "a \<noteq> b \<Longrightarrow> thread_key_of a \<noteq> StrKey (str_int b)"
  by (auto simp: thread_key_of_def split: if_splits dest: str_int_inj)

lemma chat_plain_agent:
  "chat plain_agent st tid u =
     (st(thread_key_of tid \<mapsto> answered (chat_entry plain_agent st tid u) ''ok''), ''ok'')"
proof -
  have "llm_with_tools plain_agent (messages (chat_entry plain_agent st tid u)) = Inr (''ok'', [])"
    by (simp add: plain_agent_def)
  moreover have "2 \<le> recursion_limit plain_agent"
    by (simp add: plain_agent_def)
  ultimately have "run_graph plain_agent (recursion_limit plain_agent) Agent
      (chat_entry plain_agent st tid u) = (answered (chat_entry plain_agent st tid u) ''ok'', None)"
    by (rule run_graph_plain)
  then show ?thesis
    by (simp add: chat_unfold chat_result_answered)
qed

lemma graph_invoke_plain_agent:
  "graph_invoke plain_agent st (IntKey tid) (initial_state plain_agent (is_new_thread st tid) u) =
     (st(thread_key_of tid \<mapsto> answered (chat_entry plain_agent st tid u) ''ok''),
      Inr (answered (chat_entry plain_agent st tid u) ''ok''))"
proof -
  have "llm_with_tools plain_agent (messages (chat_entry plain_agent st tid u)) = Inr (''ok'', [])"
    by (simp add: plain_agent_def)
  moreover have "2 \<le> recursion_limit plain_agent"
    by (simp add: plain_agent_def)
  ultimately have "run_graph plain_agent (recursion_limit plain_agent) Agent
      (chat_entry plain_agent st tid u) = (answered (chat_entry plain_agent st tid u) ''ok'', None)"
    by (rule run_graph_plain)
  then show ?thesis
    by (simp add: graph_invoke_def chat_entry_def thread_key_of_def)
qed

lemma str_int_1: "str_int 1 = ''1''" by code_simp
lemma str_int_0: "str_int 0 = ''0''" by code_simp
lemma str_int_7: "str_int 7 = ''7''" by code_simp
lemma str_int_m12: "str_int (- 12) = ''-12''" by code_simp

lemma chats_plain_twice:
  "chats plain_agent Map.empty 0 [''hi'', ''again''] = (after_again, [''ok'', ''ok''])"
  by (simp add: chat_plain_agent thread_key_zero after_hi_def [symmetric]
      after_again_def [symmetric])

lemma transcript_after_hi:
  "transcript after_hi (IntKey 0) =
     [SystemMessage prompt, HumanMessage ''hi'', AIMessage ''ok'' []]"
  by (simp add: after_hi_def transcript_def answered_def chat_entry_messages
      initial_messages_def is_new_thread_def plain_agent_def thread_key_zero)

lemma is_new_after_hi: "is_new_thread after_hi 0"
  by (simp add: after_hi_def is_new_thread_def)

lemma transcript_after_again:
  "transcript after_again (IntKey 0) =
     [SystemMessage prompt, HumanMessage ''hi'', AIMessage ''ok'' [],
      SystemMessage prompt, HumanMessage ''again'', AIMessage ''ok'' []]"
proof -
  have "transcript after_again (IntKey 0) =
          messages (chat_entry plain_agent after_hi 0 ''again'') @ [AIMessage ''ok'' []]"
    by (simp add: after_again_def transcript_def answered_def)
  also have "\<dots> = transcript after_hi (IntKey 0) @
                    initial_messages plain_agent True ''again'' @ [AIMessage ''ok'' []]"
    by (simp add: chat_entry_messages is_new_after_hi thread_key_zero)
  finally show ?thesis
    by (simp add: transcript_after_hi initial_messages_def plain_agent_def)
qed

text \<open>
  Claim C1 says that no execution of \<^verbatim>\<open>chat\<close> after the first adds a second system
  message to a thread. On thread \<^verbatim>\<open>0\<close> the first call leaves the transcript
  system, user, assistant; the second call on the same thread finds nothing under the
  key \<^verbatim>\<open>'0'\<close>, takes the thread for a new one and adds the system prompt again.
\<close>

theorem second_chat_adds_system_prompt_again:
  "chats plain_agent Map.empty 0 [''hi''] = (after_hi, [''ok'']) \<and>
   transcript after_hi (IntKey 0) =
     [SystemMessage prompt, HumanMessage ''hi'', AIMessage ''ok'' []] \<and>
   chats plain_agent Map.empty 0 [''hi'', ''again''] = (after_again, [''ok'', ''ok'']) \<and>
   transcript after_again (IntKey 0) =
     [SystemMessage prompt, HumanMessage ''hi'', AIMessage ''ok'' [],
      SystemMessage prompt, HumanMessage ''again'', AIMessage ''ok'' []] \<and>
   system_turns (transcript after_again (IntKey 0)) = 2"
proof -
  have 1: "chats plain_agent Map.empty 0 [''hi''] = (after_hi, [''ok''])"
    by (simp add: chat_plain_agent thread_key_zero after_hi_def [symmetric])
  have 2: "system_turns (transcript after_again (IntKey 0)) = 2"
    by (simp add: transcript_after_again)
  from 1 transcript_after_hi chats_plain_twice transcript_after_again 2
  show ?thesis by (simp only: simp_thms)
qed

subsection \<open>The branch after a model call\<close>



subsection \<open>The text that chat returns\<close>

text \<open>
  Claim C10. \<^verbatim>\<open>chat\<close> returns what its tail makes of the outcome of the run. When the
  final message has a \<^verbatim>\<open>content\<close> attribute, that content is returned, also when it is
  the empty string; when it has none, \<^verbatim>\<open>str(final_message)\<close> is returned.
\<close>

theorem final_message_text:
  "(graph_invoke ag st (IntKey tid) (initial_state ag (is_new_thread st tid) u)
      = (st', outcome) \<longrightarrow>
    chat ag st tid u = (st', chat_result ag outcome))
   \<and> (messages result \<noteq> [] \<and> content_attr (last (messages result)) = Some c \<longrightarrow>
        chat_result ag (Inr result) = c)
   \<and> (messages result \<noteq> [] \<and> content_attr (last (messages result)) = None \<longrightarrow>
        chat_result ag (Inr result) = py_str ag (last (messages result)))"
  by (simp add: chat_def chat_result_last)

theorem final_message_text_witness:
  "graph_invoke plain_agent Map.empty (IntKey 1)
      (initial_state plain_agent (is_new_thread Map.empty 1) ''hi'')
     = (Map.empty(thread_key_of 1 \<mapsto> answered (chat_entry plain_agent Map.empty 1 ''hi'') ''ok''),
        Inr (answered (chat_entry plain_agent Map.empty 1 ''hi'') ''ok'')) \<and>
   chat plain_agent Map.empty 1 ''hi''
     = (Map.empty(thread_key_of 1 \<mapsto> answered (chat_entry plain_agent Map.empty 1 ''hi'') ''ok''),
        chat_result plain_agent
          (Inr (answered (chat_entry plain_agent Map.empty 1 ''hi'') ''ok''))) \<and>
   messages silent_result \<noteq> [] \<and>
   content_attr (last (messages silent_result)) = Some [] \<and>
   chat_result plain_agent (Inr silent_result) = [] \<and>
   messages odd_result \<noteq> [] \<and>
   content_attr (last (messages odd_result)) = None \<and>
   chat_result plain_agent (Inr odd_result) = ''object''"
proof -
  note g = graph_invoke_plain_agent [of Map.empty 1 "''hi''"]
  have s: "messages silent_result \<noteq> [] \<and> content_attr (last (messages silent_result)) = Some []"
    by (simp add: silent_result_def)
  have d: "messages odd_result \<noteq> [] \<and> content_attr (last (messages odd_result)) = None"
    by (simp add: odd_result_def)
  note t1 = final_message_text [THEN conjunct1, THEN mp, OF g]
  note t2 = final_message_text [where ag = plain_agent and result = silent_result
      and c = "[]", THEN conjunct2, THEN conjunct1, THEN mp, OF s]
  note t3 = final_message_text [where ag = plain_agent and result = odd_result,
      THEN conjunct2, THEN conjunct2, THEN mp, OF d]
  have t3': "chat_result plain_agent (Inr odd_result) = ''object''"
    using t3 by (simp add: plain_agent_def)
  from g t1 s t2 d t3' show ?thesis by (simp only: simp_thms)
qed

subsection \<open>The fields beside the transcript\<close>

text \<open>
  Claim C9. \<^verbatim>\<open>chat\<close> sets \<^verbatim>\<open>user_query\<close> to the incoming text and \<^verbatim>\<open>context\<close> and
  \<^verbatim>\<open>response\<close> to the empty string; every step of the graph, at the model node and at
  the tools node, changes the \<^verbatim>\<open>messages\<close> field only, so the state stored when
  \<^verbatim>\<open>chat\<close> returns still has these three values.
\<close>

theorem steps_change_only_messages:
  "(step ag n st = Inr (n', st') \<longrightarrow>
      user_query st' = user_query st \<and> context st' = context st \<and>
      response st' = response st \<and> st' = st\<lparr>messages := messages st'\<rparr>)
   \<and> user_query (chat_entry ag store tid u) = u
   \<and> context (chat_entry ag store tid u) = []
   \<and> response (chat_entry ag store tid u) = []
   \<and> (chat ag store tid u = (store', r) \<longrightarrow>
        (\<exists>s. store' (thread_key_of tid) = Some s \<and>
             user_query s = u \<and> context s = [] \<and> response s = []))"
proof (intro conjI impI)
  assume "step ag n st = Inr (n', st')"
  then obtain ms where ms: "st' = st\<lparr>messages := messages st @ ms\<rparr>"
    using step_appends by blast
  then show "user_query st' = user_query st" "context st' = context st"
    "response st' = response st" "st' = st\<lparr>messages := messages st'\<rparr>"
    by simp_all
next
  show "user_query (chat_entry ag store tid u) = u"
    "context (chat_entry ag store tid u) = []"
    "response (chat_entry ag store tid u) = []"
    by (simp_all add: chat_entry_fields)
next
  assume c: "chat ag store tid u = (store', r)"
  obtain s ms where st: "fst (chat ag store tid u) = store(thread_key_of tid \<mapsto> s)"
    and s: "s = (chat_entry ag store tid u)
                  \<lparr>messages := messages (chat_entry ag store tid u) @ ms\<rparr>"
    by (rule chat_store)
  from s have "user_query s = u \<and> context s = [] \<and> response s = []"
    using chat_entry_fields [of ag store tid u] by simp
  with st c show "\<exists>s. store' (thread_key_of tid) = Some s \<and>
             user_query s = u \<and> context s = [] \<and> response s = []"
    by simp
qed

theorem steps_change_only_messages_witness:
  "step loop_agent Agent asked =
     Inr (Tools, asked\<lparr>messages := messages asked @ [AIMessage [] [balance_call]]\<rparr>) \<and>
   user_query (asked\<lparr>messages := messages asked @ [AIMessage [] [balance_call]]\<rparr>) = ''hi'' \<and>
   chat plain_agent Map.empty 1 ''hi''
     = (Map.empty(thread_key_of 1 \<mapsto> answered (chat_entry plain_agent Map.empty 1 ''hi'') ''ok''),
        ''ok'') \<and>
   (\<exists>s. (Map.empty(thread_key_of 1 \<mapsto> answered (chat_entry plain_agent Map.empty 1 ''hi'') ''ok''))
           (thread_key_of 1) = Some s \<and>
        user_query s = ''hi'' \<and> context s = [] \<and> response s = [])"
proof -
  have "llm_with_tools loop_agent (messages asked) = Inr ([], [balance_call])"
    by (simp add: loop_agent_def)
  then have h1: "step loop_agent Agent asked =
     Inr (Tools, asked\<lparr>messages := messages asked @ [AIMessage [] [balance_call]]\<rparr>)"
    by (rule step_Agent_tools) simp
  note h2 = chat_plain_agent [of Map.empty 1 "''hi''"]
  from steps_change_only_messages [THEN conjunct1, THEN mp, OF h1]
  have c1: "user_query (asked\<lparr>messages := messages asked @ [AIMessage [] [balance_call]]\<rparr>)
              = ''hi''"
    by (simp add: asked_def)
  note c2 = steps_change_only_messages
    [THEN conjunct2, THEN conjunct2, THEN conjunct2, THEN conjunct2, THEN mp, OF h2]
  from h1 c1 h2 c2 show ?thesis by (simp only: simp_thms)
qed

subsection \<open>The transcript only grows\<close>

text \<open>
  Claim C6. Over any sequence of user messages sent to one thread, the stored
  transcript is only ever extended at its end: what was stored before is a prefix of
  what is stored after, so its length never decreases, and the user messages added are
  exactly the messages sent, in the order sent. Each single step of the graph also
  only appends.
\<close>

theorem transcript_grows_in_order:
  "(chats ag st tid us = (st', rs) \<longrightarrow>
      (\<exists>new. transcript st' (thread_key_of tid) = transcript st (thread_key_of tid) @ new \<and>
             user_texts new = us) \<and>
      length (transcript st (thread_key_of tid)) \<le> length (transcript st' (thread_key_of tid)) \<and>
      user_texts (transcript st' (thread_key_of tid)) =
        user_texts (transcript st (thread_key_of tid)) @ us)
   \<and> (step ag n s = Inr (n', s') \<longrightarrow> (\<exists>ms. messages s' = messages s @ ms))"
proof (intro conjI impI)
  assume c: "chats ag st tid us = (st', rs)"
  from chats_append [of ag st tid us] c obtain new where
    t: "transcript st' (thread_key_of tid) = transcript st (thread_key_of tid) @ new"
    and u: "user_texts new = us" by auto
  from t u show "\<exists>new. transcript st' (thread_key_of tid) =
      transcript st (thread_key_of tid) @ new \<and> user_texts new = us" by blast
  from t show "length (transcript st (thread_key_of tid))
      \<le> length (transcript st' (thread_key_of tid))"
    by simp
  from t u show "user_texts (transcript st' (thread_key_of tid)) =
      user_texts (transcript st (thread_key_of tid)) @ us"
    by (simp add: user_texts_append)
next
  assume "step ag n s = Inr (n', s')"
  from step_appends [OF this] obtain ms where "s' = s\<lparr>messages := messages s @ ms\<rparr>"
    by blast
  then have "messages s' = messages s @ ms" by simp
  then show "\<exists>ms. messages s' = messages s @ ms" ..
qed

theorem transcript_grows_in_order_witness:
  "chats plain_agent Map.empty 0 [''hi'', ''again''] = (after_again, [''ok'', ''ok'']) \<and>
   length (transcript Map.empty (thread_key_of 0))
     \<le> length (transcript after_again (thread_key_of 0)) \<and>
   user_texts (transcript after_again (thread_key_of 0)) = [''hi'', ''again''] \<and>
   step loop_agent Agent asked =
     Inr (Tools, asked\<lparr>messages := messages asked @ [AIMessage [] [balance_call]]\<rparr>) \<and>
   (\<exists>ms. messages (asked\<lparr>messages := messages asked @ [AIMessage [] [balance_call]]\<rparr>)
          = messages asked @ ms)"
proof -
  note h = chats_plain_twice
  note t = transcript_grows_in_order [THEN conjunct1, THEN mp, OF h]
  from t have l: "length (transcript Map.empty (thread_key_of 0))
                    \<le> length (transcript after_again (thread_key_of 0))"
    by (simp only: simp_thms)
  from t have "user_texts (transcript after_again (thread_key_of 0)) =
      user_texts (transcript Map.empty (thread_key_of 0)) @ [''hi'', ''again'']"
    by (simp only: simp_thms)
  then have u: "user_texts (transcript after_again (thread_key_of 0)) = [''hi'', ''again'']"
    by (simp add: transcript_def)
  have "llm_with_tools loop_agent (messages asked) = Inr ([], [balance_call])"
    by (simp add: loop_agent_def)
  then have h2: "step loop_agent Agent asked =
     Inr (Tools, asked\<lparr>messages := messages asked @ [AIMessage [] [balance_call]]\<rparr>)"
    by (rule step_Agent_tools) simp
  note t2 = transcript_grows_in_order [THEN conjunct2, THEN mp, OF h2]
  from h l u h2 t2 show ?thesis by (simp only: simp_thms)
qed

subsection \<open>Failures inside the loop\<close>

lemma snd_chat:
  "snd (chat ag st tid u) =
     chat_result ag
       (snd (graph_invoke ag st (IntKey tid) (initial_state ag (is_new_thread st tid) u)))"
  by (simp add: chat_def split: prod.splits)

lemma snd_chat_run:
  "snd (chat ag st tid u) =
     chat_result ag
       (case run_graph ag (recursion_limit ag) Agent (chat_entry ag st tid u) of
          (s, None) \<Rightarrow> Inr s
        | (s, Some e) \<Rightarrow> Inl e)"
  by (simp add: chat_unfold split: prod.splits option.splits)

lemma chat_out_of_steps:
  assumes "snd (run_graph ag (recursion_limit ag) Agent (chat_entry ag st tid u)) =
             Some (GraphRecursionError (recursion_message ag))"
  shows "snd (chat ag st tid u) = apology @ recursion_message ag"
proof -
  obtain s r where run: "run_graph ag (recursion_limit ag) Agent (chat_entry ag st tid u) = (s, r)"
    by (cases "run_graph ag (recursion_limit ag) Agent (chat_entry ag st tid u)")
  with assms have "r = Some (GraphRecursionError (recursion_message ag))" by simp
  with run show ?thesis by (simp add: snd_chat_run chat_result_error)
qed

lemma run_graph_always_tools:
  assumes "\<forall>j. completes_round ag (round_state ag j st)"
  shows "snd (run_graph ag fuel Agent st) = Some (GraphRecursionError (recursion_message ag))"
proof -
  from assms have "\<forall>j<fuel. completes_round ag (round_state ag j st)" by simp
  then show ?thesis by (rule run_graph_out_of_steps) simp
qed

lemma run_graph_ends_on_answer:
  "run_graph ag fuel Agent st = (st', None) \<Longrightarrow>
   \<exists>k c. (\<forall>j<k. completes_round ag (round_state ag j st)) \<and>
         llm_with_tools ag (messages (round_state ag k st)) = Inr (c, []) \<and>
         2 * k + 1 < fuel \<and> st' = answered (round_state ag k st) c"
proof (induction fuel arbitrary: st rule: less_induct)
  case (less fuel)
  have pos: "0 < fuel"
    using less.prems by (cases fuel) simp_all
  show ?case
  proof (cases "llm_with_tools ag (messages st)")
    case (Inl d)
    from run_graph_error [OF Inl pos] less.prems show ?thesis by simp
  next
    case (Inr p)
    obtain c cs where p: "p = (c, cs)" by (cases p)
    show ?thesis
    proof (cases "cs = []")
      case True
      with Inr p have llm: "llm_with_tools ag (messages st) = Inr (c, [])" by simp
      have two: "2 \<le> fuel"
      proof (rule ccontr)
        assume "\<not> 2 \<le> fuel"
        with pos have "fuel = Suc 0" by simp
        with run_graph_plain_late [OF llm] less.prems show False by simp
      qed
      from run_graph_plain [OF llm two] less.prems have "st' = answered st c" by simp
      with llm two have "(\<forall>j<0. completes_round ag (round_state ag j st)) \<and>
         llm_with_tools ag (messages (round_state ag 0 st)) = Inr (c, []) \<and>
         2 * 0 + 1 < fuel \<and> st' = answered (round_state ag 0 st) c" by simp
      then show ?thesis by blast
    next
      case False
      from Inr p have llm: "llm_with_tools ag (messages st) = Inr (c, cs)" by simp
      let ?st1 = "st\<lparr>messages := messages st @ [AIMessage c cs]\<rparr>"
      have 1: "step ag Agent st = Inr (Tools, ?st1)"
        using llm False by (rule step_Agent_tools)
      have r1: "run_graph ag fuel Agent st = run_graph ag (fuel - 1) Tools ?st1"
        using pos 1 by (intro run_graph_step) simp_all
      have two: "2 \<le> fuel"
      proof (rule ccontr)
        assume "\<not> 2 \<le> fuel"
        with pos have "fuel - 1 = 0" by simp
        with r1 less.prems show False by simp
      qed
      show ?thesis
      proof (cases "run_tools ag cs")
        case (Inl d)
        have "step ag Tools ?st1 = Inl (ToolError d)"
          by (rule step_Tools_error [where pre = "messages st", OF _ Inl]) simp
        with two have "run_graph ag (fuel - 1) Tools ?st1 = (?st1, Some (ToolError d))"
          by (intro run_graph_fail) simp_all
        with r1 less.prems show ?thesis by simp
      next
        case results: (Inr results)
        from llm False results have req: "completes_round ag st"
          by (simp add: completes_round_def)
        from run_graph_round [OF req two] less.prems
        have "run_graph ag (fuel - 2) Agent (next_round ag st) = (st', None)" by simp
        moreover from two have "fuel - 2 < fuel" by simp
        ultimately obtain k c' where
          k: "\<forall>j<k. completes_round ag (round_state ag j (next_round ag st))"
          and a: "llm_with_tools ag (messages (round_state ag k (next_round ag st))) = Inr (c', [])"
          and f: "2 * k + 1 < fuel - 2"
          and s: "st' = answered (round_state ag k (next_round ag st)) c'"
          using less.IH by blast
        have "\<forall>j<Suc k. completes_round ag (round_state ag j st)"
        proof (intro allI impI)
          fix j assume "j < Suc k"
          then show "completes_round ag (round_state ag j st)"
            using req k by (cases j) simp_all
        qed
        with a s f have "(\<forall>j<Suc k. completes_round ag (round_state ag j st)) \<and>
           llm_with_tools ag (messages (round_state ag (Suc k) st)) = Inr (c', []) \<and>
           2 * Suc k + 1 < fuel \<and> st' = answered (round_state ag (Suc k) st) c'" by simp
        then show ?thesis by blast
      qed
    qed
  qed
qed

lemma failing_agent_fails:
  "llm_with_tools failing_agent ms = Inl ''Connection error.''"
  by (simp add: failing_agent_def)

lemma loop_agent_completes: "completes_round loop_agent s"
  by (simp add: completes_round_def loop_agent_def balance_call_def)

text \<open>
  Claim C4. For every thread identifier and user input \<^verbatim>\<open>chat\<close> returns a text and hands
  no exception to its caller: the text is what the tail of \<^verbatim>\<open>chat\<close> makes of the outcome
  of \<^verbatim>\<open>graph.invoke\<close>, and whenever that outcome is an exception the text is the apology
  followed by the exception's message. This covers a failure of the model client, at
  its first call or after any number of tool rounds, and the engine's recursion error
  that ends a run in which the model asks for tools on every call.
\<close>

theorem chat_always_returns_text:
  "snd (chat ag st tid u) =
     chat_result ag
       (snd (graph_invoke ag st (IntKey tid) (initial_state ag (is_new_thread st tid) u)))
   \<and> (snd (graph_invoke ag st (IntKey tid) (initial_state ag (is_new_thread st tid) u)) = Inl e
        \<longrightarrow> snd (chat ag st tid u) = apology @ error_text e)
   \<and> ((\<forall>j<k. completes_round ag (round_state ag j (chat_entry ag st tid u))) \<and>
       llm_with_tools ag (messages (round_state ag k (chat_entry ag st tid u))) = Inl d \<and>
       2 * k < recursion_limit ag \<longrightarrow>
        chat ag st tid u =
          (st(thread_key_of tid \<mapsto> round_state ag k (chat_entry ag st tid u)), apology @ d))
   \<and> ((\<forall>j. completes_round ag (round_state ag j (chat_entry ag st tid u))) \<longrightarrow>
        snd (chat ag st tid u) = apology @ recursion_message ag)"
proof (intro conjI impI)
  show "snd (chat ag st tid u) =
     chat_result ag
       (snd (graph_invoke ag st (IntKey tid) (initial_state ag (is_new_thread st tid) u)))"
    by (rule snd_chat)
next
  assume "snd (graph_invoke ag st (IntKey tid) (initial_state ag (is_new_thread st tid) u))
            = Inl e"
  then show "snd (chat ag st tid u) = apology @ error_text e"
    by (simp add: snd_chat chat_result_error)
next
  let ?e = "chat_entry ag st tid u"
  assume h: "(\<forall>j<k. completes_round ag (round_state ag j ?e)) \<and>
       llm_with_tools ag (messages (round_state ag k ?e)) = Inl d \<and>
       2 * k < recursion_limit ag"
  then have "run_graph ag (recursion_limit ag) Agent ?e = (round_state ag k ?e, Some (ModelError d))"
    by (intro run_graph_model_error) simp_all
  then show "chat ag st tid u = (st(thread_key_of tid \<mapsto> round_state ag k ?e), apology @ d)"
    by (simp add: chat_unfold chat_result_error)
next
  assume "\<forall>j. completes_round ag (round_state ag j (chat_entry ag st tid u))"
  then have "snd (run_graph ag (recursion_limit ag) Agent (chat_entry ag st tid u)) =
      Some (GraphRecursionError (recursion_message ag))"
    by (rule run_graph_always_tools)
  then show "snd (chat ag st tid u) = apology @ recursion_message ag"
    by (rule chat_out_of_steps)
qed

theorem chat_always_returns_text_witness:
  "llm_with_tools failing_agent
     (messages (round_state failing_agent 0 (chat_entry failing_agent Map.empty 1 ''hi'')))
     = Inl ''Connection error.'' \<and>
   2 * 0 < recursion_limit failing_agent \<and>
   snd (chat failing_agent Map.empty 1 ''hi'') =
     ''I encountered an error while processing your request: Connection error.'' \<and>
   (\<forall>j. completes_round loop_agent
          (round_state loop_agent j (chat_entry loop_agent Map.empty 1 ''hi''))) \<and>
   snd (chat loop_agent Map.empty 1 ''hi'') =
     ''I encountered an error while processing your request: Recursion limit of 25 reached without hitting a stop condition.''"
proof -
  let ?e = "chat_entry failing_agent Map.empty 1 ''hi''"
  have h: "llm_with_tools failing_agent (messages (round_state failing_agent 0 ?e))
             = Inl ''Connection error.''"
    by (rule failing_agent_fails)
  have l: "2 * 0 < recursion_limit failing_agent"
    by (simp add: failing_agent_def)
  have hyp: "(\<forall>j<0. completes_round failing_agent (round_state failing_agent j ?e)) \<and>
       llm_with_tools failing_agent (messages (round_state failing_agent 0 ?e))
         = Inl ''Connection error.'' \<and>
       2 * 0 < recursion_limit failing_agent"
    using h l by simp
  note c = chat_always_returns_text
    [where k = 0 and d = "''Connection error.''",
      THEN conjunct2, THEN conjunct2, THEN conjunct1, THEN mp, OF hyp]
  from c have m: "snd (chat failing_agent Map.empty 1 ''hi'') =
     ''I encountered an error while processing your request: Connection error.''"
    by (simp add: apology_def)
  have a: "\<forall>j. completes_round loop_agent
          (round_state loop_agent j (chat_entry loop_agent Map.empty 1 ''hi''))"
    by (simp add: loop_agent_completes)
  note c2 = chat_always_returns_text
    [THEN conjunct2, THEN conjunct2, THEN conjunct2, THEN mp, OF a]
  from c2 have m2: "snd (chat loop_agent Map.empty 1 ''hi'') =
     ''I encountered an error while processing your request: Recursion limit of 25 reached without hitting a stop condition.''"
    by (simp add: apology_def loop_agent_def limit_text_def)
  from h l m a m2 show ?thesis by (intro conjI)
qed

subsection \<open>The end of the loop\<close>

lemma patient_round:
  assumes "length (filter is_tool_result (messages s)) < 13"
  shows "completes_round patient_agent s \<and>
         length (filter is_tool_result (messages (next_round patient_agent s))) =
           Suc (length (filter is_tool_result (messages s)))"
proof -
  have llm: "llm_with_tools patient_agent (messages s) = Inr ([], [balance_call])"
    using assms by (simp add: patient_agent_def)
  have rt: "run_tools patient_agent [balance_call] = Inr [ToolMessage ''5 ADA'' ''call_1'']"
    by (simp add: patient_agent_def balance_call_def)
  have c: "completes_round patient_agent s"
    using llm rt by (simp add: completes_round_def)
  from next_round_eq [OF llm _ rt]
  have "next_round patient_agent s =
          s\<lparr>messages := messages s @ [AIMessage [] [balance_call], ToolMessage ''5 ADA'' ''call_1'']\<rparr>"
    by simp
  with c show ?thesis by simp
qed

lemma patient_rounds:
  "length (filter is_tool_result (messages s)) + j \<le> 13 \<Longrightarrow>
   length (filter is_tool_result (messages (round_state patient_agent j s))) =
     length (filter is_tool_result (messages s)) + j \<and>
   (\<forall>i<j. completes_round patient_agent (round_state patient_agent i s))"
proof (induction j arbitrary: s)
  case 0
  then show ?case by simp
next
  case (Suc j)
  from Suc.prems have lt: "length (filter is_tool_result (messages s)) < 13" by simp
  note r = patient_round [OF lt]
  from r Suc.prems
  have "length (filter is_tool_result (messages (next_round patient_agent s))) + j \<le> 13"
    by simp
  from Suc.IH [OF this] r
  have n: "length (filter is_tool_result (messages (round_state patient_agent (Suc j) s))) =
          length (filter is_tool_result (messages s)) + Suc j"
    and rest: "\<forall>i<j. completes_round patient_agent
                  (round_state patient_agent i (next_round patient_agent s))"
    by simp_all
  have "\<forall>i<Suc j. completes_round patient_agent (round_state patient_agent i s)"
  proof (intro allI impI)
    fix i assume "i < Suc j"
    then show "completes_round patient_agent (round_state patient_agent i s)"
      using r rest by (cases i) simp_all
  qed
  with n show ?case by simp
qed

lemma patient_entry:
  "length (filter is_tool_result (messages (chat_entry patient_agent Map.empty 1 ''hi''))) = 0"
  by (simp add: chat_entry_messages transcript_def initial_messages_def)

lemma patient_asks_13:
  "\<forall>j<13. completes_round patient_agent
            (round_state patient_agent j (chat_entry patient_agent Map.empty 1 ''hi''))"
  using patient_rounds [of "chat_entry patient_agent Map.empty 1 ''hi''" 13]
  by (simp add: patient_entry)

lemma patient_answers:
  "llm_with_tools patient_agent
     (messages (round_state patient_agent 13 (chat_entry patient_agent Map.empty 1 ''hi'')))
   = Inr (''done'', [])"
proof -
  from patient_rounds [of "chat_entry patient_agent Map.empty 1 ''hi''" 13]
  have "length (filter is_tool_result
          (messages (round_state patient_agent 13 (chat_entry patient_agent Map.empty 1 ''hi''))))
        = 13"
    by (simp add: patient_entry)
  then show ?thesis by (simp add: patient_agent_def)
qed

lemma tool_agent_entry:
  "messages (chat_entry tool_agent Map.empty 7 ''What is the balance of addr_test1?'') =
     [SystemMessage prompt, HumanMessage ''What is the balance of addr_test1?'']"
  by (simp add: chat_entry_messages transcript_def initial_messages_def is_new_thread_def
      tool_agent_def)

lemma tool_agent_first:
  "llm_with_tools tool_agent
     [SystemMessage prompt, HumanMessage ''What is the balance of addr_test1?'']
   = Inr ([], [balance_call])"
  by (simp add: tool_agent_def)

lemma tool_agent_tools:
  "run_tools tool_agent [balance_call] = Inr [ToolMessage ''5 ADA'' ''call_1'']"
  by (simp add: tool_agent_def balance_call_def)

lemma tool_agent_round:
  "messages (round_state tool_agent 1
       (chat_entry tool_agent Map.empty 7 ''What is the balance of addr_test1?'')) =
     [SystemMessage prompt, HumanMessage ''What is the balance of addr_test1?'',
      AIMessage [] [balance_call], ToolMessage ''5 ADA'' ''call_1'']"
proof -
  let ?e = "chat_entry tool_agent Map.empty 7 ''What is the balance of addr_test1?''"
  have "llm_with_tools tool_agent (messages ?e) = Inr ([], [balance_call])"
    by (simp add: tool_agent_entry tool_agent_first)
  from next_round_eq [OF this _ tool_agent_tools]
  have "next_round tool_agent ?e =
          ?e\<lparr>messages := messages ?e @
               [AIMessage [] [balance_call], ToolMessage ''5 ADA'' ''call_1'']\<rparr>"
    by simp
  then show ?thesis
    by (simp add: tool_agent_entry)
qed

text \<open>
  Claim C3, as stated: whenever the model answers in plain text after finitely many
  replies that ask for tools, the loop ends and returns that answer. The model below
  asks for a tool thirteen times and would then answer \<^verbatim>\<open>'done'\<close>; the engine's
  recursion limit ends the run before, and \<^verbatim>\<open>chat\<close> returns the recursion error.
\<close>

theorem answer_after_limit_counterexample:
  "list_all (\<lambda>j. completes_round patient_agent
               (round_state patient_agent j (chat_entry patient_agent Map.empty 1 ''hi'')))
     [0..<13] \<and>
   llm_with_tools patient_agent
     (messages (round_state patient_agent 13 (chat_entry patient_agent Map.empty 1 ''hi'')))
     = Inr (''done'', []) \<and>
   snd (chat patient_agent Map.empty 1 ''hi'') =
     ''I encountered an error while processing your request: Recursion limit of 25 reached without hitting a stop condition.'' \<and>
   snd (chat patient_agent Map.empty 1 ''hi'') \<noteq> ''done''"
proof -
  let ?e = "chat_entry patient_agent Map.empty 1 ''hi''"
  have a: "list_all (\<lambda>j. completes_round patient_agent (round_state patient_agent j ?e)) [0..<13]"
    using patient_asks_13 by (simp add: list_all_iff)
  have "recursion_limit patient_agent \<le> 2 * 13 + 1"
    by (simp add: patient_agent_def)
  from run_graph_late_answer [OF patient_asks_13 patient_answers this]
  have "snd (chat patient_agent Map.empty 1 ''hi'') = apology @ recursion_message patient_agent"
    by (rule chat_out_of_steps)
  then have c: "snd (chat patient_agent Map.empty 1 ''hi'') =
     ''I encountered an error while processing your request: Recursion limit of 25 reached without hitting a stop condition.''"
    by (simp add: apology_def patient_agent_def limit_text_def)
  then have n: "snd (chat patient_agent Map.empty 1 ''hi'') \<noteq> ''done''"
    by simp
  from a patient_answers c n show ?thesis by (intro conjI)
qed

text \<open>
  Claim C3, amended. The graph has no counter of its own and alternates the model call
  and the tool dispatch; the engine runs it under its recursion limit \<open>L\<close>. If the
  model asks for tools in its first \<open>k\<close> replies and then answers in plain text, \<^verbatim>\<open>chat\<close>
  returns that answer when \<open>2k + 1 < L\<close>, and the apology with the recursion error
  otherwise. The run ends normally exactly when such an answer comes within the
  limit, and a model that asks for tools on every call gets the recursion error.
\<close>

theorem loop_runs_until_answer_or_limit:
  "((\<forall>j<k. completes_round ag (round_state ag j (chat_entry ag st tid u))) \<and>
    llm_with_tools ag (messages (round_state ag k (chat_entry ag st tid u))) = Inr (c, []) \<and>
    2 * k + 1 < recursion_limit ag
    \<longrightarrow> chat ag st tid u =
          (st(thread_key_of tid \<mapsto> answered (round_state ag k (chat_entry ag st tid u)) c), c))
   \<and> ((\<forall>j<k. completes_round ag (round_state ag j (chat_entry ag st tid u))) \<and>
       llm_with_tools ag (messages (round_state ag k (chat_entry ag st tid u))) = Inr (c, []) \<and>
       recursion_limit ag \<le> 2 * k + 1
       \<longrightarrow> snd (chat ag st tid u) = apology @ recursion_message ag)
   \<and> (snd (run_graph ag (recursion_limit ag) Agent (chat_entry ag st tid u)) = None \<longleftrightarrow>
        (\<exists>k c. (\<forall>j<k. completes_round ag (round_state ag j (chat_entry ag st tid u))) \<and>
           llm_with_tools ag (messages (round_state ag k (chat_entry ag st tid u)))
             = Inr (c, []) \<and>
           2 * k + 1 < recursion_limit ag))
   \<and> ((\<forall>j. completes_round ag (round_state ag j (chat_entry ag st tid u)))
        \<longrightarrow> snd (chat ag st tid u) = apology @ recursion_message ag)"
proof (intro conjI impI)
  let ?e = "chat_entry ag st tid u"
  assume h: "(\<forall>j<k. completes_round ag (round_state ag j ?e)) \<and>
    llm_with_tools ag (messages (round_state ag k ?e)) = Inr (c, []) \<and>
    2 * k + 1 < recursion_limit ag"
  then have "run_graph ag (recursion_limit ag) Agent ?e = (answered (round_state ag k ?e) c, None)"
    by (intro run_graph_answer) simp_all
  then show "chat ag st tid u =
      (st(thread_key_of tid \<mapsto> answered (round_state ag k ?e) c), c)"
    by (simp add: chat_unfold chat_result_answered)
next
  let ?e = "chat_entry ag st tid u"
  assume h: "(\<forall>j<k. completes_round ag (round_state ag j ?e)) \<and>
       llm_with_tools ag (messages (round_state ag k ?e)) = Inr (c, []) \<and>
       recursion_limit ag \<le> 2 * k + 1"
  then have a: "\<forall>j<k. completes_round ag (round_state ag j ?e)"
    and b: "llm_with_tools ag (messages (round_state ag k ?e)) = Inr (c, [])"
    and l: "recursion_limit ag \<le> 2 * k + 1" by simp_all
  from a b l have "snd (run_graph ag (recursion_limit ag) Agent ?e) =
      Some (GraphRecursionError (recursion_message ag))"
    by (rule run_graph_late_answer)
  then show "snd (chat ag st tid u) = apology @ recursion_message ag"
    by (rule chat_out_of_steps)
next
  let ?e = "chat_entry ag st tid u"
  show "snd (run_graph ag (recursion_limit ag) Agent ?e) = None \<longleftrightarrow>
        (\<exists>k c. (\<forall>j<k. completes_round ag (round_state ag j ?e)) \<and>
           llm_with_tools ag (messages (round_state ag k ?e)) = Inr (c, []) \<and>
           2 * k + 1 < recursion_limit ag)"
  proof
    assume n: "snd (run_graph ag (recursion_limit ag) Agent ?e) = None"
    obtain s r where run: "run_graph ag (recursion_limit ag) Agent ?e = (s, r)"
      by (cases "run_graph ag (recursion_limit ag) Agent ?e")
    with n have "run_graph ag (recursion_limit ag) Agent ?e = (s, None)" by simp
    from run_graph_ends_on_answer [OF this]
    show "\<exists>k c. (\<forall>j<k. completes_round ag (round_state ag j ?e)) \<and>
           llm_with_tools ag (messages (round_state ag k ?e)) = Inr (c, []) \<and>
           2 * k + 1 < recursion_limit ag"
      by blast
  next
    assume "\<exists>k c. (\<forall>j<k. completes_round ag (round_state ag j ?e)) \<and>
           llm_with_tools ag (messages (round_state ag k ?e)) = Inr (c, []) \<and>
           2 * k + 1 < recursion_limit ag"
    then obtain k c where a: "\<forall>j<k. completes_round ag (round_state ag j ?e)"
      and b: "llm_with_tools ag (messages (round_state ag k ?e)) = Inr (c, [])"
      and l: "2 * k + 1 < recursion_limit ag" by blast
    from run_graph_answer [OF a b l]
    show "snd (run_graph ag (recursion_limit ag) Agent ?e) = None" by simp
  qed
next
  assume "\<forall>j. completes_round ag (round_state ag j (chat_entry ag st tid u))"
  then have "snd (run_graph ag (recursion_limit ag) Agent (chat_entry ag st tid u)) =
      Some (GraphRecursionError (recursion_message ag))"
    by (rule run_graph_always_tools)
  then show "snd (chat ag st tid u) = apology @ recursion_message ag"
    by (rule chat_out_of_steps)
qed

theorem loop_runs_until_answer_or_limit_witness:
  "completes_round tool_agent (round_state tool_agent 0
        (chat_entry tool_agent Map.empty 7 ''What is the balance of addr_test1?'')) \<and>
   llm_with_tools tool_agent (messages (round_state tool_agent 1
        (chat_entry tool_agent Map.empty 7 ''What is the balance of addr_test1?'')))
     = Inr (''The balance is 5 ADA'', []) \<and>
   2 * 1 + 1 < recursion_limit tool_agent \<and>
   snd (chat tool_agent Map.empty 7 ''What is the balance of addr_test1?'')
     = ''The balance is 5 ADA'' \<and>
   recursion_limit patient_agent \<le> 2 * 13 + 1 \<and>
   snd (chat patient_agent Map.empty 1 ''hi'') = apology @ recursion_message patient_agent \<and>
   (\<forall>j. completes_round loop_agent (round_state loop_agent j
        (chat_entry loop_agent Map.empty 7 ''hi''))) \<and>
   snd (chat loop_agent Map.empty 7 ''hi'') = apology @ recursion_message loop_agent"
proof -
  let ?u = "''What is the balance of addr_test1?''"
  let ?e = "chat_entry tool_agent Map.empty 7 ?u"
  have h0: "completes_round tool_agent (round_state tool_agent 0 ?e)"
  proof -
    have "llm_with_tools tool_agent (messages ?e) = Inr ([], [balance_call])"
      by (simp add: tool_agent_entry tool_agent_first)
    with tool_agent_tools show ?thesis
      by (simp add: completes_round_def del: run_tools.simps)
  qed
  have h2: "llm_with_tools tool_agent (messages (round_state tool_agent 1 ?e))
              = Inr (''The balance is 5 ADA'', [])"
    by (simp only: tool_agent_round) (simp add: tool_agent_def)
  have h3: "2 * 1 + 1 < recursion_limit tool_agent"
    by (simp add: tool_agent_def)
  have hyp: "(\<forall>j<1. completes_round tool_agent (round_state tool_agent j ?e)) \<and>
    llm_with_tools tool_agent (messages (round_state tool_agent 1 ?e))
      = Inr (''The balance is 5 ADA'', []) \<and>
    2 * 1 + 1 < recursion_limit tool_agent"
    using h0 h2 h3 by simp
  note t1 = loop_runs_until_answer_or_limit [THEN conjunct1, THEN mp, OF hyp]
  from t1 have c1: "snd (chat tool_agent Map.empty 7 ?u) = ''The balance is 5 ADA''"
    by simp
  have p: "recursion_limit patient_agent \<le> 2 * 13 + 1"
    by (simp add: patient_agent_def)
  have hyp2: "(\<forall>j<13. completes_round patient_agent
            (round_state patient_agent j (chat_entry patient_agent Map.empty 1 ''hi''))) \<and>
    llm_with_tools patient_agent
     (messages (round_state patient_agent 13 (chat_entry patient_agent Map.empty 1 ''hi'')))
     = Inr (''done'', []) \<and>
    recursion_limit patient_agent \<le> 2 * 13 + 1"
    using patient_asks_13 patient_answers p by (intro conjI)
  note c2 = loop_runs_until_answer_or_limit
    [THEN conjunct2, THEN conjunct1, THEN mp, OF hyp2]
  have h4: "\<forall>j. completes_round loop_agent (round_state loop_agent j
        (chat_entry loop_agent Map.empty 7 ''hi''))"
    by (simp add: loop_agent_completes)
  note c3 = loop_runs_until_answer_or_limit
    [THEN conjunct2, THEN conjunct2, THEN conjunct2, THEN mp, OF h4]
  from h0 h2 h3 c1 p c2 h4 c3 show ?thesis by (intro conjI)
qed

subsection \<open>Threads do not touch each other\<close>

lemma chat_entry_reads_own_keys:
  assumes "st (thread_key_of t) = sa (thread_key_of t)"
    and "st (StrKey (str_int t)) = sa (StrKey (str_int t))"
  shows "chat_entry ag st t u = chat_entry ag sa t u"
  using assms by (simp add: chat_entry_def entry_state_def is_new_thread_def thread_key_of_def)

lemma chat_other_store:
  assumes "chat_entry ag sa t u = chat_entry ag st t u"
  shows "snd (chat ag sa t u) = snd (chat ag st t u) \<and>
         fst (chat ag sa t u) (thread_key_of t) = fst (chat ag st t u) (thread_key_of t) \<and>
         (\<forall>k. k \<noteq> thread_key_of t \<longrightarrow> fst (chat ag sa t u) k = sa k)"
  using assms by (simp add: chat_unfold split: prod.splits)

lemma chat_other_thread:
  assumes "t1 \<noteq> t2"
  shows "fst (chat ag st t1 u1) (thread_key_of t2) = st (thread_key_of t2) \<and>
         fst (chat ag st t1 u1) (StrKey (str_int t2)) = st (StrKey (str_int t2))"
proof -
  from assms have "thread_key_of t2 \<noteq> thread_key_of t1"
    using thread_key_of_inj by blast
  moreover from assms have "StrKey (str_int t2) \<noteq> thread_key_of t1"
    using detection_key_other [of t1 t2] by simp
  ultimately show ?thesis
    using chat_writes_only_its_key [of ag st t1 u1] by simp
qed

text \<open>
  Claim C7. For two distinct thread identifiers, an execution of \<^verbatim>\<open>chat\<close> on the first
  neither writes anything that the second reads (its checkpoint and the state
  consulted by new-thread detection) nor is needed by it: the second execution returns
  the same text and stores the same state for its thread whether or not the first one
  ran before it. With the same input on two fresh identifiers the two transcripts and
  the two returned texts are equal. Distinct identifiers have distinct keys because
  \<^verbatim>\<open>str\<close> maps distinct integers to distinct strings.
\<close>

theorem threads_are_independent:
  assumes "t1 \<noteq> t2"
  shows
  "(chat ag st t1 u1 = (st1, r1) \<longrightarrow>
      st1 (thread_key_of t2) = st (thread_key_of t2) \<and>
      st1 (StrKey (str_int t2)) = st (StrKey (str_int t2)) \<and>
      chat_entry ag st1 t2 u2 = chat_entry ag st t2 u2)
   \<and> (chat ag st t1 u1 = (st1, r1) \<and> chat ag st t2 u2 = (st2, r2) \<longrightarrow>
        (\<exists>st12. chat ag st1 t2 u2 = (st12, r2) \<and>
                st12 (thread_key_of t2) = st2 (thread_key_of t2) \<and>
                st12 (thread_key_of t1) = st1 (thread_key_of t1)))
   \<and> (st (thread_key_of t1) = None \<and> st (thread_key_of t2) = None \<and>
       is_new_thread st t1 = is_new_thread st t2 \<and>
       chat ag st t1 u1 = (st1, r1) \<and> chat ag st t2 u1 = (st2, r2) \<longrightarrow>
        r1 = r2 \<and> transcript st1 (thread_key_of t1) = transcript st2 (thread_key_of t2))
   \<and> thread_key_of t1 \<noteq> thread_key_of t2"
proof (intro conjI impI)
  assume c: "chat ag st t1 u1 = (st1, r1)"
  from chat_other_thread [OF assms, of ag st u1] c
  show a: "st1 (thread_key_of t2) = st (thread_key_of t2)"
    and b: "st1 (StrKey (str_int t2)) = st (StrKey (str_int t2))"
    by simp_all
  from a b show "chat_entry ag st1 t2 u2 = chat_entry ag st t2 u2"
    by (rule chat_entry_reads_own_keys)
next
  assume "chat ag st t1 u1 = (st1, r1) \<and> chat ag st t2 u2 = (st2, r2)"
  then have c1: "chat ag st t1 u1 = (st1, r1)" and c2: "chat ag st t2 u2 = (st2, r2)"
    by simp_all
  from chat_other_thread [OF assms, of ag st u1] c1
  have "st1 (thread_key_of t2) = st (thread_key_of t2)"
    "st1 (StrKey (str_int t2)) = st (StrKey (str_int t2))"
    by simp_all
  then have "chat_entry ag st1 t2 u2 = chat_entry ag st t2 u2"
    by (rule chat_entry_reads_own_keys)
  from chat_other_store [OF this] c2
  have s: "snd (chat ag st1 t2 u2) = r2"
    and k2: "fst (chat ag st1 t2 u2) (thread_key_of t2) = st2 (thread_key_of t2)"
    and o: "\<forall>k. k \<noteq> thread_key_of t2 \<longrightarrow> fst (chat ag st1 t2 u2) k = st1 k"
    by simp_all
  from assms have "thread_key_of t1 \<noteq> thread_key_of t2"
    using thread_key_of_inj by blast
  with o have k1: "fst (chat ag st1 t2 u2) (thread_key_of t1) = st1 (thread_key_of t1)"
    by simp
  from s have "chat ag st1 t2 u2 = (fst (chat ag st1 t2 u2), r2)"
    by (simp add: prod_eq_iff)
  with k1 k2 show "\<exists>st12. chat ag st1 t2 u2 = (st12, r2) \<and>
                st12 (thread_key_of t2) = st2 (thread_key_of t2) \<and>
                st12 (thread_key_of t1) = st1 (thread_key_of t1)"
    by blast
next
  assume h: "st (thread_key_of t1) = None \<and> st (thread_key_of t2) = None \<and>
       is_new_thread st t1 = is_new_thread st t2 \<and>
       chat ag st t1 u1 = (st1, r1) \<and> chat ag st t2 u1 = (st2, r2)"
  then have e: "chat_entry ag st t1 u1 = chat_entry ag st t2 u1"
    by (simp add: chat_entry_def entry_state_def thread_key_of_def)
  from h have c1: "chat ag st t1 u1 = (st1, r1)" and c2: "chat ag st t2 u1 = (st2, r2)"
    by simp_all
  from c1 c2 show "r1 = r2"
    by (simp add: chat_unfold e split: prod.splits)
  from c1 c2 show "transcript st1 (thread_key_of t1) = transcript st2 (thread_key_of t2)"
    by (auto simp: chat_unfold e transcript_def split: prod.splits)
next
  from assms show "thread_key_of t1 \<noteq> thread_key_of t2"
    using thread_key_of_inj by blast
qed

theorem threads_are_independent_witness:
  "(1::int) \<noteq> 2 \<and>
   chat plain_agent Map.empty 1 ''hi'' =
     (Map.empty(thread_key_of 1 \<mapsto> answered (chat_entry plain_agent Map.empty 1 ''hi'') ''ok''),
      ''ok'') \<and>
   chat plain_agent Map.empty 2 ''hi'' =
     (Map.empty(thread_key_of 2 \<mapsto> answered (chat_entry plain_agent Map.empty 2 ''hi'') ''ok''),
      ''ok'') \<and>
   (\<exists>st12. chat plain_agent
             (Map.empty(thread_key_of 1 \<mapsto>
                answered (chat_entry plain_agent Map.empty 1 ''hi'') ''ok''))
             2 ''hi'' = (st12, ''ok'') \<and>
           st12 (thread_key_of 2) =
             (Map.empty(thread_key_of 2 \<mapsto>
                answered (chat_entry plain_agent Map.empty 2 ''hi'') ''ok'')) (thread_key_of 2) \<and>
           st12 (thread_key_of 1) =
             (Map.empty(thread_key_of 1 \<mapsto>
                answered (chat_entry plain_agent Map.empty 1 ''hi'') ''ok'')) (thread_key_of 1)) \<and>
   thread_key_of 1 = StrKey ''1'' \<and> thread_key_of 2 = StrKey ''2'' \<and>
   thread_key_of 1 \<noteq> thread_key_of 2"
proof -
  have d: "(1::int) \<noteq> 2" by simp
  note c1 = chat_plain_agent [of Map.empty 1 "''hi''"]
  note c2 = chat_plain_agent [of Map.empty 2 "''hi''"]
  note i = threads_are_independent [OF d, THEN conjunct2, THEN conjunct1, THEN mp, OF conjI,
      OF c1 c2]
  note k = threads_are_independent [OF d, THEN conjunct2, THEN conjunct2, THEN conjunct2]
  have k1: "thread_key_of 1 = StrKey ''1''"
    by (simp add: thread_key_of_def) code_simp
  have k2: "thread_key_of 2 = StrKey ''2''"
    by (simp add: thread_key_of_def) code_simp
  from d c1 c2 i k1 k2 k show ?thesis by (intro conjI)
qed

subsection \<open>The key read and the key written\<close>

text \<open>
  Claim C8, as stated: whenever the thread identifier is not a string, the key that
  new-thread detection reads differs from the key under which the execution writes.
  For thread \<^verbatim>\<open>1\<close> the engine writes under \<^verbatim>\<open>'1'\<close>, which is the key that
  \<^verbatim>\<open>is_new_thread\<close> reads: the thread is new before \<^verbatim>\<open>chat\<close> and no longer new after.
\<close>

theorem same_key_for_thread_1_counterexample:
  "checkpoint_key (IntKey 1) = StrKey (str_int 1) \<and>
   str_int 1 = ''1'' \<and>
   is_new_thread Map.empty 1 \<and>
   \<not> is_new_thread (fst (chat plain_agent Map.empty 1 ''hi'')) 1"
proof -
  have a: "checkpoint_key (IntKey 1) = StrKey (str_int 1)" by simp
  have n: "is_new_thread Map.empty 1" by (simp add: is_new_thread_def)
  have "\<not> is_new_thread (fst (chat plain_agent Map.empty 1 ''hi'')) 1"
    by (simp add: chat_plain_agent is_new_thread_def thread_key_of_def)
  with a str_int_1 n show ?thesis by (intro conjI)
qed

text \<open>
  Claim C8, amended. \<^verbatim>\<open>is_new_thread\<close> looks at the state stored under
  \<^verbatim>\<open>str(thread_id)\<close> and answers \<^verbatim>\<open>True\<close> exactly when that state is empty; \<^verbatim>\<open>chat\<close>
  hands \<^verbatim>\<open>thread_id\<close> itself to \<^verbatim>\<open>graph.invoke\<close>, and the engine keeps a thread whose
  identifier is not \<^verbatim>\<open>0\<close> under \<^verbatim>\<open>str(thread_id)\<close>. So for every identifier but \<^verbatim>\<open>0\<close> the
  key read is the key written and the thread is no longer new after \<^verbatim>\<open>chat\<close>; for
  \<^verbatim>\<open>0\<close> the keys differ and \<^verbatim>\<open>is_new_thread\<close> answers after \<^verbatim>\<open>chat\<close> what it answered
  before. \<^verbatim>\<open>chat\<close> on one thread never changes the answer for another.
\<close>

theorem detection_key_and_execution_key:
  "is_new_thread st tid = (st (StrKey (str_int tid)) = None)
   \<and> chat ag st tid u =
       (case graph_invoke ag st (IntKey tid) (initial_state ag (is_new_thread st tid) u) of
          (st', outcome) \<Rightarrow> (st', chat_result ag outcome))
   \<and> (tid \<noteq> 0 \<longrightarrow>
        checkpoint_key (IntKey tid) = StrKey (str_int tid) \<and>
        \<not> is_new_thread (fst (chat ag st tid u)) tid)
   \<and> (tid = 0 \<longrightarrow>
        checkpoint_key (IntKey tid) \<noteq> StrKey (str_int tid) \<and>
        is_new_thread (fst (chat ag st tid u)) tid = is_new_thread st tid)
   \<and> (t' \<noteq> tid \<longrightarrow> is_new_thread (fst (chat ag st tid u)) t' = is_new_thread st t')"
proof (intro conjI impI)
  show "is_new_thread st tid = (st (StrKey (str_int tid)) = None)"
    by (simp add: is_new_thread_def)
  show "chat ag st tid u =
       (case graph_invoke ag st (IntKey tid) (initial_state ag (is_new_thread st tid) u) of
          (st', outcome) \<Rightarrow> (st', chat_result ag outcome))"
    by (simp add: chat_def)
next
  assume nz: "tid \<noteq> 0"
  then show "checkpoint_key (IntKey tid) = StrKey (str_int tid)" by simp
  from nz chat_writes_only_its_key [of ag st tid u]
  show "\<not> is_new_thread (fst (chat ag st tid u)) tid"
    by (simp add: is_new_thread_def thread_key_nonzero)
next
  assume z: "tid = 0"
  then show "checkpoint_key (IntKey tid) \<noteq> StrKey (str_int tid)" by simp
  from z chat_writes_only_its_key [of ag st tid u]
  show "is_new_thread (fst (chat ag st tid u)) tid = is_new_thread st tid"
    by (simp add: is_new_thread_def thread_key_zero)
next
  assume "t' \<noteq> tid"
  then have "tid \<noteq> t'" by simp
  from chat_other_thread [OF this, of ag st u]
  show "is_new_thread (fst (chat ag st tid u)) t' = is_new_thread st t'"
    by (simp add: is_new_thread_def)
qed

theorem detection_key_and_execution_key_witness:
  "(1::int) \<noteq> 0 \<and>
   checkpoint_key (IntKey 1) = StrKey (str_int 1) \<and>
   \<not> is_new_thread (fst (chat plain_agent Map.empty 1 ''hi'')) 1 \<and>
   checkpoint_key (IntKey 0) \<noteq> StrKey (str_int 0) \<and>
   is_new_thread (fst (chat plain_agent Map.empty 0 ''hi'')) 0 = is_new_thread Map.empty 0 \<and>
   (2::int) \<noteq> 1 \<and>
   is_new_thread (fst (chat plain_agent Map.empty 1 ''hi'')) 2 = is_new_thread Map.empty 2"
proof -
  have a: "(1::int) \<noteq> 0" and b: "(0::int) = 0" and c: "(2::int) \<noteq> 1" by simp_all
  note t1 = detection_key_and_execution_key
    [where ag = plain_agent and st = Map.empty and u = "''hi''",
      THEN conjunct2, THEN conjunct2, THEN conjunct1, THEN mp, OF a]
  note t0 = detection_key_and_execution_key
    [where ag = plain_agent and st = Map.empty and u = "''hi''",
      THEN conjunct2, THEN conjunct2, THEN conjunct2, THEN conjunct1, THEN mp, OF b]
  note t2 = detection_key_and_execution_key
    [where ag = plain_agent and st = Map.empty and u = "''hi''",
      THEN conjunct2, THEN conjunct2, THEN conjunct2, THEN conjunct2, THEN mp, OF c]
  from a t1 t0 c t2 show ?thesis by (simp only: simp_thms)
qed

subsection \<open>Tool calls and their results\<close>

lemma takeWhile_tool_append:
  "ys = [] \<or> \<not> is_tool_result (hd ys) \<Longrightarrow>
   takeWhile is_tool_result (xs @ ys) = takeWhile is_tool_result xs"
  by (induction xs) (auto simp: takeWhile_eq_Nil_iff neq_Nil_conv)

lemma resolved_append:
  "resolved xs \<Longrightarrow> resolved ys \<Longrightarrow> ys = [] \<or> \<not> is_tool_result (hd ys) \<Longrightarrow>
   resolved (xs @ ys)"
  by (induction xs rule: resolved.induct) (simp_all add: takeWhile_tool_append)

lemma resolved_tool_results: "list_all is_tool_result rs \<Longrightarrow> resolved rs"
  by (induction rs rule: resolved.induct) simp_all

lemma resolved_round:
  assumes "resolved pre" and "run_tools ag cs = Inr results"
  shows "resolved (pre @ AIMessage c cs # results)"
proof -
  note r = run_tools_results [OF assms(2)]
  from r have tw: "takeWhile is_tool_result results = results"
    and ids: "result_ids results = map call_id cs"
    and rs: "list_all is_tool_result results" by simp_all
  have "resolved (AIMessage c cs # results)"
    unfolding resolved.simps tw using ids resolved_tool_results [OF rs] by simp
  with assms(1) show ?thesis by (rule resolved_append) simp
qed

lemma resolved_answer:
  assumes "resolved pre"
  shows "resolved (pre @ [AIMessage c []])"
  using assms by (rule resolved_append) simp_all

lemma unresolved_pending:
  "\<not> resolved (xs @ AIMessage c (call # cs) # HumanMessage u # ys)"
  by (induction xs rule: resolved.induct) simp_all

lemma no_pending_Tools:
  "no_pending Tools st \<longleftrightarrow>
   (\<exists>pre c cs. messages st = pre @ [AIMessage c cs] \<and> cs \<noteq> [] \<and> resolved pre)"
proof
  assume "no_pending Tools st"
  then obtain c cs before where r: "rev (messages st) = AIMessage c cs # before"
    and ne: "cs \<noteq> []" and res: "resolved (rev before)"
    by (auto simp: no_pending_def split: list.splits message.splits)
  from r have "messages st = rev before @ [AIMessage c cs]"
    by (simp add: rev_eq_Cons_iff)
  with ne res show "\<exists>pre c cs. messages st = pre @ [AIMessage c cs] \<and> cs \<noteq> [] \<and> resolved pre"
    by blast
next
  assume "\<exists>pre c cs. messages st = pre @ [AIMessage c cs] \<and> cs \<noteq> [] \<and> resolved pre"
  then show "no_pending Tools st"
    by (auto simp: no_pending_def)
qed

lemma step_Tools_cases:
  assumes "messages st = pre @ [AIMessage c cs]"
  shows "(\<exists>d. run_tools ag cs = Inl d \<and> step ag Tools st = Inl (ToolError d)) \<or>
         (\<exists>results. run_tools ag cs = Inr results \<and>
            step ag Tools st = Inr (Agent, st\<lparr>messages := messages st @ results\<rparr>))"
proof (cases "run_tools ag cs")
  case (Inl d)
  with step_Tools_error [OF assms Inl] show ?thesis by blast
next
  case (Inr results)
  with step_Tools [OF assms Inr] show ?thesis by blast
qed

lemma step_keeps_no_pending:
  assumes inv: "no_pending n st" and s: "step ag n st = Inr (n', st')"
  shows "no_pending n' st'"
proof (cases n)
  case Agent
  with inv have res: "resolved (messages st)" by (simp add: no_pending_def)
  show ?thesis
  proof (cases "llm_with_tools ag (messages st)")
    case (Inl e)
    with s Agent show ?thesis by (simp add: step_Agent_error)
  next
    case (Inr p)
    obtain c cs where p: "p = (c, cs)" by (cases p)
    show ?thesis
    proof (cases "cs = []")
      case True
      with Inr p have "llm_with_tools ag (messages st) = Inr (c, [])" by simp
      from step_Agent_plain [OF this] s Agent
      have "n' = END" "st' = st\<lparr>messages := messages st @ [AIMessage c []]\<rparr>" by simp_all
      with resolved_answer [OF res] show ?thesis by (simp add: no_pending_def)
    next
      case False
      from Inr p have "llm_with_tools ag (messages st) = Inr (c, cs)" by simp
      from step_Agent_tools [OF this False] s Agent
      have "n' = Tools" "st' = st\<lparr>messages := messages st @ [AIMessage c cs]\<rparr>" by simp_all
      with res False show ?thesis by (simp add: no_pending_Tools)
    qed
  qed
next
  case Tools
  with inv obtain pre c cs where m: "messages st = pre @ [AIMessage c cs]"
    and res: "resolved pre" by (auto simp: no_pending_Tools)
  from step_Tools_cases [OF m, of ag] s Tools obtain results where
    rt: "run_tools ag cs = Inr results"
    and "n' = Agent" "st' = st\<lparr>messages := messages st @ results\<rparr>" by auto
  with m resolved_round [OF res rt, of c] show ?thesis by (simp add: no_pending_def)
next
  case END
  with inv s show ?thesis by (simp add: step.simps)
qed

lemma config_after_keeps_no_pending:
  "no_pending n st \<Longrightarrow> config_after ag k n st = Some (n', st') \<Longrightarrow> no_pending n' st'"
proof (induction k arbitrary: n st)
  case 0
  then show ?case by simp
next
  case (Suc k)
  from Suc.prems(2) have notEnd: "n \<noteq> END" by (auto split: if_splits)
  from Suc.prems(2) notEnd obtain n1 st1 where s: "step ag n st = Inr (n1, st1)"
    and rest: "config_after ag k n1 st1 = Some (n', st')"
    by (auto split: sum.splits)
  from step_keeps_no_pending [OF Suc.prems(1) s] rest show ?case by (rule Suc.IH)
qed

lemma step_Tools_no_model_error:
  "no_pending Tools st \<Longrightarrow> step ag Tools st \<noteq> Inl (ModelError d)"
proof -
  assume "no_pending Tools st"
  then obtain pre c cs where m: "messages st = pre @ [AIMessage c cs]"
    by (auto simp: no_pending_Tools)
  from step_Tools_cases [OF m, of ag] show ?thesis by auto
qed

lemma run_graph_keeps_resolved:
  "no_pending n st \<Longrightarrow> run_graph ag k n st = (st', r) \<Longrightarrow>
   r = None \<or> (\<exists>d. r = Some (ModelError d)) \<Longrightarrow> resolved (messages st')"
proof (induction k arbitrary: n st)
  case 0
  then show ?case by auto
next
  case (Suc k)
  show ?case
  proof (cases "n = END")
    case True
    with Suc.prems show ?thesis by (simp add: no_pending_def)
  next
    case notEnd: False
    show ?thesis
    proof (cases "step ag n st")
      case (Inl e)
      with notEnd Suc.prems(2) have same: "st' = st" and r: "r = Some e" by simp_all
      show ?thesis
      proof (cases n)
        case Agent
        with Suc.prems(1) same show ?thesis by (simp add: no_pending_def)
      next
        case Tools
        with Suc.prems(1) Inl r Suc.prems(3) step_Tools_no_model_error [of st ag]
        show ?thesis by auto
      next
        case END
        with notEnd show ?thesis by simp
      qed
    next
      case (Inr p)
      obtain n1 st1 where p: "p = (n1, st1)" by (cases p)
      with Inr have s: "step ag n st = Inr (n1, st1)" by simp
      from Inr p notEnd Suc.prems(2) have "run_graph ag k n1 st1 = (st', r)" by simp
      with step_keeps_no_pending [OF Suc.prems(1) s] show ?thesis
        using Suc.prems(3) by (rule Suc.IH)
    qed
  qed
qed

lemma chat_entry_resolved:
  assumes "resolved (transcript st (thread_key_of tid))"
  shows "no_pending Agent (chat_entry ag st tid u)"
proof -
  have "resolved (initial_messages ag (is_new_thread st tid) u)"
    by (simp add: initial_messages_def)
  with assms have "resolved (transcript st (thread_key_of tid) @
      initial_messages ag (is_new_thread st tid) u)"
    by (rule resolved_append) (simp add: initial_messages_def)
  then show ?thesis by (simp add: no_pending_def chat_entry_messages)
qed

lemma graph_invoke_run:
  "graph_invoke ag st (IntKey tid) (initial_state ag (is_new_thread st tid) u) = (st', outcome)
   \<Longrightarrow> \<exists>s r. run_graph ag (recursion_limit ag) Agent (chat_entry ag st tid u) = (s, r) \<and>
         st' = st(thread_key_of tid \<mapsto> s) \<and>
         outcome = (case r of None \<Rightarrow> Inr s | Some e \<Rightarrow> Inl e)"
proof -
  assume g: "graph_invoke ag st (IntKey tid) (initial_state ag (is_new_thread st tid) u)
               = (st', outcome)"
  obtain s r where run: "run_graph ag (recursion_limit ag) Agent (chat_entry ag st tid u) = (s, r)"
    by (cases "run_graph ag (recursion_limit ag) Agent (chat_entry ag st tid u)")
  with g have "st' = st(thread_key_of tid \<mapsto> s) \<and>
         outcome = (case r of None \<Rightarrow> Inr s | Some e \<Rightarrow> Inl e)"
    by (cases r) (auto simp: graph_invoke_def chat_entry_def thread_key_of_def)
  with run show ?thesis by blast
qed

lemma balance_step_agent: "step tool_agent Agent balance_entry = Inr (Tools, balance_pending)"
proof -
  have "llm_with_tools tool_agent (messages balance_entry) = Inr ([], [balance_call])"
    by (simp add: balance_entry_def tool_agent_entry tool_agent_first)
  then show ?thesis
    unfolding balance_pending_def by (rule step_Agent_tools) simp
qed

lemma balance_step_tools: "step tool_agent Tools balance_pending = Inr (Agent, balance_done)"
proof -
  have "messages balance_pending = messages balance_entry @ [AIMessage [] [balance_call]]"
    by (simp add: balance_pending_def)
  from step_Tools [OF this tool_agent_tools] show ?thesis
    by (simp add: balance_done_def)
qed

lemma balance_config:
  "config_after tool_agent (Suc (Suc 0)) Agent balance_entry = Some (Agent, balance_done)"
  by (simp add: balance_step_agent balance_step_tools)

lemma broken_entry:
  "messages (chat_entry broken_tool_agent Map.empty 1 ''hi'') =
     [SystemMessage prompt, HumanMessage ''hi'']"
  by (simp add: chat_entry_messages transcript_def initial_messages_def is_new_thread_def
      broken_tool_agent_def)

lemma broken_llm: "llm_with_tools broken_tool_agent ms = Inr ([], [balance_call])"
  by (simp add: broken_tool_agent_def)

lemma broken_tools: "run_tools broken_tool_agent [balance_call] = Inl ''Blockfrost is not reachable''"
  by (simp add: broken_tool_agent_def)

lemma broken_run:
  "run_graph broken_tool_agent (recursion_limit broken_tool_agent) Agent
     (chat_entry broken_tool_agent Map.empty 1 ''hi'') =
   ((chat_entry broken_tool_agent Map.empty 1 ''hi'')
      \<lparr>messages := [SystemMessage prompt, HumanMessage ''hi'', AIMessage [] [balance_call]]\<rparr>,
    Some (ToolError ''Blockfrost is not reachable''))"
proof -
  let ?e = "chat_entry broken_tool_agent Map.empty 1 ''hi''"
  let ?e1 = "?e\<lparr>messages := messages ?e @ [AIMessage [] [balance_call]]\<rparr>"
  have l: "recursion_limit broken_tool_agent = 25" by (simp add: broken_tool_agent_def)
  have 1: "step broken_tool_agent Agent ?e = Inr (Tools, ?e1)"
    using broken_llm by (rule step_Agent_tools) simp
  have 2: "step broken_tool_agent Tools ?e1 = Inl (ToolError ''Blockfrost is not reachable'')"
    by (rule step_Tools_error [where pre = "messages ?e", OF _ broken_tools]) simp
  have "run_graph broken_tool_agent 25 Agent ?e = run_graph broken_tool_agent (25 - 1) Tools ?e1"
    using 1 by (intro run_graph_step) simp_all
  also have "\<dots> = (?e1, Some (ToolError ''Blockfrost is not reachable''))"
    using 2 by (intro run_graph_fail) simp_all
  finally show ?thesis by (simp add: l broken_entry)
qed

lemma broken_chat:
  "chat broken_tool_agent Map.empty 1 ''hi'' =
     (Map.empty(thread_key_of 1 \<mapsto>
        (chat_entry broken_tool_agent Map.empty 1 ''hi'')
          \<lparr>messages := [SystemMessage prompt, HumanMessage ''hi'', AIMessage [] [balance_call]]\<rparr>),
      apology @ ''Blockfrost is not reachable'')"
  by (simp add: chat_unfold broken_run chat_result_error)

lemma transcript_after_break:
  "transcript after_break (thread_key_of 1) =
     [SystemMessage prompt, HumanMessage ''hi'', AIMessage [] [balance_call]]"
  by (simp add: after_break_def broken_chat transcript_def)

lemma not_new_after_break: "\<not> is_new_thread after_break 1"
  by (simp add: after_break_def broken_chat is_new_thread_def thread_key_of_def)

lemma retry_entry_messages:
  "messages retry_entry =
     [SystemMessage prompt, HumanMessage ''hi'', AIMessage [] [balance_call],
      HumanMessage ''again'']"
  by (simp add: retry_entry_def chat_entry_messages transcript_after_break not_new_after_break
      initial_messages_def)

text \<open>
  Claim C5, as stated: the loop never calls the model while a tool call of the
  transcript has no result. On thread \<^verbatim>\<open>1\<close> the model asks for a tool and the tool
  raises: \<^verbatim>\<open>chat\<close> returns the apology and the checkpoint keeps the assistant message
  with its tool call. The next \<^verbatim>\<open>chat\<close> on the thread appends the user message and
  calls the model on a transcript in which that tool call has no result.
\<close>

theorem model_called_with_pending_call_counterexample:
  "snd (chat broken_tool_agent Map.empty 1 ''hi'') =
     ''I encountered an error while processing your request: Blockfrost is not reachable'' \<and>
   transcript after_break (thread_key_of 1) =
     [SystemMessage prompt, HumanMessage ''hi'', AIMessage [] [balance_call]] \<and>
   config_after broken_tool_agent 0 Agent retry_entry = Some (Agent, retry_entry) \<and>
   messages retry_entry =
     [SystemMessage prompt, HumanMessage ''hi'', AIMessage [] [balance_call],
      HumanMessage ''again''] \<and>
   \<not> resolved (messages retry_entry) \<and>
   step broken_tool_agent Agent retry_entry =
     Inr (Tools, retry_entry\<lparr>messages := messages retry_entry @ [AIMessage [] [balance_call]]\<rparr>)"
proof -
  have a: "snd (chat broken_tool_agent Map.empty 1 ''hi'') =
     ''I encountered an error while processing your request: Blockfrost is not reachable''"
    by (simp add: broken_chat apology_def)
  have c: "config_after broken_tool_agent 0 Agent retry_entry = Some (Agent, retry_entry)"
    by simp
  have "\<not> resolved ([SystemMessage prompt, HumanMessage ''hi''] @
          AIMessage [] (balance_call # []) # HumanMessage ''again'' # [])"
    by (rule unresolved_pending)
  then have n: "\<not> resolved (messages retry_entry)"
    by (simp add: retry_entry_messages)
  have s: "step broken_tool_agent Agent retry_entry =
     Inr (Tools, retry_entry\<lparr>messages := messages retry_entry @ [AIMessage [] [balance_call]]\<rparr>)"
    using broken_llm by (rule step_Agent_tools) simp
  from a transcript_after_break c retry_entry_messages n s show ?thesis by (intro conjI)
qed

text \<open>
  Claim C5, amended. Within one execution of \<^verbatim>\<open>chat\<close> that starts from a stored
  transcript without pending tool calls, the model is only ever called on a transcript
  in which each assistant message is directly followed by exactly one tool result per
  tool call, carrying that call's identifier; between a reply with tool calls and the
  next model call lies one step of the tools node, which appends exactly these
  results when no tool raises. A run that ends normally or by a failure of the model
  client stores such a transcript again, and the empty checkpointer holds one.
\<close>

theorem tool_calls_answered_within_a_run:
  "(resolved (transcript st (thread_key_of tid)) \<and>
    config_after ag k Agent (chat_entry ag st tid u) = Some (n, s) \<longrightarrow>
      no_pending n s \<and> (n \<noteq> Tools \<longrightarrow> resolved (messages s)))
   \<and> (no_pending Tools s \<and> step ag Tools s = Inr (n', s') \<longrightarrow>
        n' = Agent \<and>
        (\<exists>pre c cs results. messages s = pre @ [AIMessage c cs] \<and> cs \<noteq> [] \<and>
           messages s' = messages s @ results \<and>
           list_all is_tool_result results \<and>
           length results = length cs \<and>
           result_ids results = map call_id cs))
   \<and> (resolved (transcript st (thread_key_of tid)) \<and>
       graph_invoke ag st (IntKey tid) (initial_state ag (is_new_thread st tid) u) =
         (st', Inr result) \<longrightarrow>
        resolved (transcript st' (thread_key_of tid)))
   \<and> (resolved (transcript st (thread_key_of tid)) \<and>
       graph_invoke ag st (IntKey tid) (initial_state ag (is_new_thread st tid) u) =
         (st', Inl (ModelError d)) \<longrightarrow>
        resolved (transcript st' (thread_key_of tid)))
   \<and> resolved (transcript Map.empty (thread_key_of tid))"
proof (intro conjI impI)
  assume h: "resolved (transcript st (thread_key_of tid)) \<and>
    config_after ag k Agent (chat_entry ag st tid u) = Some (n, s)"
  then have "no_pending Agent (chat_entry ag st tid u)"
    by (simp add: chat_entry_resolved)
  from config_after_keeps_no_pending [OF this] h show inv: "no_pending n s" by blast
  assume "n \<noteq> Tools"
  with inv show "resolved (messages s)" by (cases n) (simp_all add: no_pending_def)
next
  assume h: "no_pending Tools s \<and> step ag Tools s = Inr (n', s')"
  then obtain pre c cs where m: "messages s = pre @ [AIMessage c cs]" and ne: "cs \<noteq> []"
    by (auto simp: no_pending_Tools)
  from step_Tools_cases [OF m, of ag] h obtain results where
    rt: "run_tools ag cs = Inr results"
    and n: "n' = Agent" and s': "s' = s\<lparr>messages := messages s @ results\<rparr>" by auto
  from n show "n' = Agent" .
  from s' have ms: "messages s' = messages s @ results" by simp
  from m ne ms run_tools_results [OF rt]
  show "\<exists>pre c cs results. messages s = pre @ [AIMessage c cs] \<and> cs \<noteq> [] \<and>
           messages s' = messages s @ results \<and>
           list_all is_tool_result results \<and>
           length results = length cs \<and>
           result_ids results = map call_id cs"
    by blast
next
  assume h: "resolved (transcript st (thread_key_of tid)) \<and>
       graph_invoke ag st (IntKey tid) (initial_state ag (is_new_thread st tid) u) =
         (st', Inr result)"
  then have inv: "no_pending Agent (chat_entry ag st tid u)"
    by (simp add: chat_entry_resolved)
  from h graph_invoke_run [of ag st tid u st' "Inr result"] obtain s r where
    run: "run_graph ag (recursion_limit ag) Agent (chat_entry ag st tid u) = (s, r)"
    and st': "st' = st(thread_key_of tid \<mapsto> s)"
    and o: "Inr result = (case r of None \<Rightarrow> Inr s | Some e \<Rightarrow> Inl e)"
    by blast
  from o have "r = None" by (cases r) simp_all
  then have "r = None \<or> (\<exists>d. r = Some (ModelError d))" by simp
  from run_graph_keeps_resolved [OF inv run this] st'
  show "resolved (transcript st' (thread_key_of tid))"
    by (simp add: transcript_def)
next
  assume h: "resolved (transcript st (thread_key_of tid)) \<and>
       graph_invoke ag st (IntKey tid) (initial_state ag (is_new_thread st tid) u) =
         (st', Inl (ModelError d))"
  then have inv: "no_pending Agent (chat_entry ag st tid u)"
    by (simp add: chat_entry_resolved)
  from h graph_invoke_run [of ag st tid u st' "Inl (ModelError d)"] obtain s r where
    run: "run_graph ag (recursion_limit ag) Agent (chat_entry ag st tid u) = (s, r)"
    and st': "st' = st(thread_key_of tid \<mapsto> s)"
    and o: "Inl (ModelError d) = (case r of None \<Rightarrow> Inr s | Some e \<Rightarrow> Inl e)"
    by blast
  from o have "r = Some (ModelError d)" by (cases r) simp_all
  then have "r = None \<or> (\<exists>d. r = Some (ModelError d))" by simp
  from run_graph_keeps_resolved [OF inv run this] st'
  show "resolved (transcript st' (thread_key_of tid))"
    by (simp add: transcript_def)
next
  show "resolved (transcript Map.empty (thread_key_of tid))"
    by (simp add: transcript_def)
qed

theorem tool_calls_answered_within_a_run_witness:
  "resolved (transcript Map.empty (thread_key_of 7)) \<and>
   config_after tool_agent (Suc (Suc 0)) Agent
     (chat_entry tool_agent Map.empty 7 ''What is the balance of addr_test1?'')
     = Some (Agent, balance_done) \<and>
   resolved (messages balance_done) \<and>
   messages balance_done =
     [SystemMessage prompt, HumanMessage ''What is the balance of addr_test1?'',
      AIMessage [] [balance_call], ToolMessage ''5 ADA'' ''call_1''] \<and>
   config_after tool_agent (Suc 0) Agent
     (chat_entry tool_agent Map.empty 7 ''What is the balance of addr_test1?'')
     = Some (Tools, balance_pending) \<and>
   no_pending Tools balance_pending \<and>
   step tool_agent Tools balance_pending = Inr (Agent, balance_done) \<and>
   (\<exists>pre c cs results. messages balance_pending = pre @ [AIMessage c cs] \<and> cs \<noteq> [] \<and>
      messages balance_done = messages balance_pending @ results \<and>
      list_all is_tool_result results \<and>
      length results = length cs \<and>
      result_ids results = map call_id cs) \<and>
   graph_invoke plain_agent Map.empty (IntKey 1)
      (initial_state plain_agent (is_new_thread Map.empty 1) ''hi'')
     = (Map.empty(thread_key_of 1 \<mapsto> answered (chat_entry plain_agent Map.empty 1 ''hi'') ''ok''),
        Inr (answered (chat_entry plain_agent Map.empty 1 ''hi'') ''ok'')) \<and>
   resolved (transcript
     (Map.empty(thread_key_of 1 \<mapsto> answered (chat_entry plain_agent Map.empty 1 ''hi'') ''ok''))
     (thread_key_of 1))"
proof -
  let ?e = "chat_entry tool_agent Map.empty 7 ''What is the balance of addr_test1?''"
  have r: "resolved (transcript Map.empty (thread_key_of 7))"
    by (simp add: transcript_def)
  have c2: "config_after tool_agent (Suc (Suc 0)) Agent ?e = Some (Agent, balance_done)"
    using balance_config by (simp only: balance_entry_def)
  have c1: "config_after tool_agent (Suc 0) Agent ?e = Some (Tools, balance_pending)"
    using balance_step_agent by (simp add: balance_entry_def)
  note t = tool_calls_answered_within_a_run [THEN conjunct1, THEN mp]
  from t [OF conjI, OF r c2] have d: "resolved (messages balance_done)"
    by simp
  from t [OF conjI, OF r c1] have p: "no_pending Tools balance_pending"
    by (rule conjunct1)
  have m: "messages balance_done =
     [SystemMessage prompt, HumanMessage ''What is the balance of addr_test1?'',
      AIMessage [] [balance_call], ToolMessage ''5 ADA'' ''call_1'']"
    by (simp add: balance_done_def balance_pending_def balance_entry_def tool_agent_entry)
  note x = tool_calls_answered_within_a_run
    [THEN conjunct2, THEN conjunct1, THEN mp, OF conjI, OF p balance_step_tools,
      THEN conjunct2]
  note g = graph_invoke_plain_agent [of Map.empty 1 "''hi''"]
  have r1: "resolved (transcript Map.empty (thread_key_of 1))"
    by (simp add: transcript_def)
  note y = tool_calls_answered_within_a_run
    [THEN conjunct2, THEN conjunct2, THEN conjunct1, THEN mp, OF conjI, OF r1 g]
  from r c2 d m c1 p balance_step_tools x g y show ?thesis by (intro conjI)
qed

end
